theory Spec2Isabelle
  imports Complex_Main "HOL-Library.Multiset" "HOL-Library.Log_Nat"
begin

section \<open>Data model\<close>

text \<open>
  The notebook simulates a cohort of researchers that look for facts (integers).
  Every call of Python's \<open>random\<close> module is an input of the model: the value drawn is
  passed in, so that each function is a pure function of the state and of its draws.
  A Python float is the real number it stands for. Comparisons of floats are exact; the
  additions of rates, the product of \<open>do_research\<close> and the quotient that a tick
  records are rounded to the nearest double, as Python rounds them (section
  \<open>Floating point\<close>).
\<close>

datatype error = AssertionError | IndexError | ZeroDivisionError

text \<open>The module-level constant \<open>n_facts = 100\<close> of the notebook's second cell.\<close>

definition n_facts_global :: int where
  "n_facts_global = 100"

text \<open>The classes that the second scheduler can drive (their \<open>act\<close> takes the pool).\<close>

datatype worker_class = ForgetfulResearcher_v2 | SociableResearcer_v2 | DatabaseResearcher

text \<open>
  One record for the attributes of the whole class hierarchy; an attribute that a class
  does not have is never read by that class. A Python set of facts is a list read as a
  set (\<open>set_add\<close> inserts, \<open>removeAll\<close> deletes), so that a draw can pick an element.
  Every worker owns its set, as in the notebook, where each worker is built on a fresh
  \<open>set()\<close>.
\<close>

record worker =
  cls :: worker_class
  n_facts :: int
  known_facts :: "int list"
  target_fact :: "int option"
  forget_rate :: real
  socialise_rate :: real
  contribution_success_rate :: real
  socialise_threshold :: real
  database_query_threshold :: real
  database_write_threshold :: real

record DatabaseResearcherSettings =
  cfg_forget_rate :: real
  cfg_socialise_rate :: real
  cfg_contribution_success_rate :: real
  cfg_database_query_rate :: real
  cfg_database_write_rate :: real

text \<open>
  The draws one call of \<open>act\<close> may consume: \<open>random.random()\<close> in \<open>forget\<close>, the
  element that \<open>set.pop()\<close> removes, \<open>random.random()\<close> in \<open>act\<close>, the position
  taken by \<open>random.choice\<close>, \<open>random.random()\<close> in \<open>write_to_database\<close> and
  \<open>random.betavariate(a, b)\<close> in \<open>do_research\<close>.
\<close>

record draws =
  d_forget :: real
  d_pop :: nat
  d_action :: real
  d_choice :: nat
  d_write :: real
  d_beta :: real

text \<open>
  A cohort: the list \<open>workers\<close> that the scheduler walks, which is also the list every
  worker received through \<open>set_colleagues(workers)\<close>, and the one set object that was
  passed as \<open>database\<close> to every constructor of the cohort.
\<close>

record cohort =
  workers :: "worker list"
  database :: "int list"

section \<open>Primitives\<close>

definition set_add :: "int \<Rightarrow> int list \<Rightarrow> int list" where
  "set_add x xs = (if x \<in> set xs then xs else x # xs)"

text \<open>\<open>random.choice(seq)\<close> on a non-empty sequence: the draw selects a position.\<close>

definition choice :: "nat \<Rightarrow> 'a list \<Rightarrow> 'a" where
  "choice k xs = xs ! (k mod length xs)"

text \<open>\<open>random.randint(lo, hi)\<close> for \<open>lo \<le> hi\<close>: an integer of the closed range.\<close>

definition randint :: "int \<Rightarrow> int \<Rightarrow> nat \<Rightarrow> int" where
  "randint lo hi k = lo + int k mod (hi - lo + 1)"

text \<open>Python's \<open>int(x)\<close> on a float truncates towards zero.\<close>

definition py_int :: "real \<Rightarrow> int" where
  "py_int x = (if 0 \<le> x then \<lfloor>x\<rfloor> else \<lceil>x\<rceil>)"

definition upd_worker :: "nat \<Rightarrow> (worker \<Rightarrow> worker) \<Rightarrow> cohort \<Rightarrow> cohort" where
  "upd_worker i f c = c\<lparr>workers := (workers c)[i := f (workers c ! i)]\<rparr>"

section \<open>Floating point\<close>

text \<open>
  Python's floats are IEEE 754 doubles: numbers \<open>m * 2\<^sup>e\<close> with an integer \<open>m\<close> of at
  most 53 bits. An operation returns the exact result rounded to the nearest double,
  a tie going to the even \<open>m\<close>. The range of the exponent is not modelled, and no
  operation of the notebook depends on it: a sum of doubles is exact where it is
  subnormal, a sum that overflows compares with 1 as its rounded value does, a product
  below 1 is truncated to 0 however it is rounded, and the quotient of a count by a
  population is far above the subnormal range.
\<close>

definition pow2 :: "int \<Rightarrow> real" where
  "pow2 e = (if 0 \<le> e then 2 ^ nat e else 1 / 2 ^ nat (- e))"

text \<open>
  The exponent \<open>e\<close> of a positive number \<open>x\<close>: \<open>2\<^sup>e \<le> x < 2\<^sup>e\<^sup>+\<^sup>1\<close> (lemma
  \<open>exponent_bounds\<close>); \<open>floorlog 2 n\<close> is the number of bits of \<open>n\<close>.
\<close>

definition exponent :: "real \<Rightarrow> int" where
  "exponent x =
     (if 1 \<le> x then int (floorlog 2 (nat \<lfloor>x\<rfloor>)) - 1
      else - int (floorlog 2 (nat (\<lceil>1 / x\<rceil> - 1))))"

definition round_half_even :: "real \<Rightarrow> int" where
  "round_half_even y =
     (let f = \<lfloor>y\<rfloor>
      in if y - of_int f < 1 / 2 then f
         else if 1 / 2 < y - of_int f then f + 1
         else if even f then f else f + 1)"

definition round_double :: "real \<Rightarrow> real" where
  "round_double x =
     (if x = 0 then 0
      else let q = pow2 (exponent \<bar>x\<bar> - 52)
           in of_int (round_half_even (x / q)) * q)"

definition is_double :: "real \<Rightarrow> bool" where
  "is_double x \<longleftrightarrow> round_double x = x"

text \<open>Float addition and multiplication, and the conversion of an \<open>int\<close> operand.\<close>

definition fadd :: "real \<Rightarrow> real \<Rightarrow> real" where
  "fadd x y = round_double (x + y)"

definition fmul :: "real \<Rightarrow> real \<Rightarrow> real" where
  "fmul x y = round_double (x * y)"

definition float_of_int :: "int \<Rightarrow> real" where
  "float_of_int n = round_double (real_of_int n)"

section \<open>Worker, Researcher, ForgetfulResearcher\<close>

definition Worker_init :: "worker_class \<Rightarrow> int \<Rightarrow> int list \<Rightarrow> worker" where
  "Worker_init k n kf =
     \<lparr>cls = k, n_facts = n, known_facts = kf, target_fact = None, forget_rate = 0,
      socialise_rate = 0, contribution_success_rate = 0, socialise_threshold = 0,
      database_query_threshold = 0, database_write_threshold = 0\<rparr>"

text \<open>\<open>self.target_fact = random.randint(0, n_facts-1)\<close>, with the module's \<open>n_facts\<close>.\<close>

definition generate_new_target_fact :: "nat \<Rightarrow> worker \<Rightarrow> worker" where
  "generate_new_target_fact k w = w\<lparr>target_fact := Some (randint 0 (n_facts_global - 1) k)\<rparr>"

definition target_known :: "worker \<Rightarrow> bool" where
  "target_known w = (case target_fact w of None \<Rightarrow> False | Some t \<Rightarrow> t \<in> set (known_facts w))"

definition update :: "nat \<Rightarrow> worker \<Rightarrow> worker \<times> bool" where
  "update k w = (if target_known w then (generate_new_target_fact k w, True) else (w, False))"

definition Researcher_init :: "worker_class \<Rightarrow> int \<Rightarrow> int list \<Rightarrow> nat \<Rightarrow> worker" where
  "Researcher_init k n kf t1 = generate_new_target_fact t1 (Worker_init k n kf)"

text \<open>
  \<open>int(self.n_facts * random.betavariate(a, b))\<close>: the \<open>int\<close> operand becomes a
  float, the product is a float product, and \<open>int\<close> truncates it. The size of a fact
  space is taken below \<open>2\<^sup>1\<^sup>0\<^sup>2\<^sup>4\<close>, beyond which Python cannot convert it.
\<close>

definition do_research :: "draws \<Rightarrow> worker \<Rightarrow> worker" where
  "do_research d w =
     (let new_fact = py_int (fmul (float_of_int (n_facts w)) (d_beta d))
      in w\<lparr>known_facts := set_add new_fact (known_facts w)\<rparr>)"

definition ForgetfulResearcher_init ::
  "worker_class \<Rightarrow> int \<Rightarrow> int list \<Rightarrow> real \<Rightarrow> nat \<Rightarrow> nat \<Rightarrow> worker" where
  "ForgetfulResearcher_init k n kf fr t1 t2 =
     (generate_new_target_fact t2 (Researcher_init k n kf t1))\<lparr>forget_rate := fr\<rparr>"

definition forget :: "draws \<Rightarrow> worker \<Rightarrow> worker" where
  "forget d w =
     (if length (known_facts w) > 0 then
        if d_forget d < forget_rate w
        then w\<lparr>known_facts := removeAll (choice (d_pop d) (known_facts w)) (known_facts w)\<rparr>
        else w
      else w)"

definition ForgetfulResearcher_v2_act :: "draws \<Rightarrow> nat \<Rightarrow> cohort \<Rightarrow> cohort" where
  "ForgetfulResearcher_v2_act d i c = upd_worker i (do_research d) (upd_worker i (forget d) c)"

section \<open>SociableResearcer_v2\<close>

definition SociableResearcer_v2_init ::
  "worker_class \<Rightarrow> int \<Rightarrow> int list \<Rightarrow> real \<Rightarrow> real \<Rightarrow> nat \<Rightarrow> nat \<Rightarrow> worker" where
  "SociableResearcer_v2_init k n kf fr sr t1 t2 =
     (ForgetfulResearcher_init k n kf fr t1 t2)\<lparr>socialise_rate := sr\<rparr>"

text \<open>
  \<open>ask_colleague\<close> of worker \<open>i\<close> on the live pool. \<open>random.choice\<close> raises IndexError on
  an empty pool, and so does \<open>self.colleageus[chosen_idx]\<close> beyond the list.
\<close>

definition ask_colleague :: "draws \<Rightarrow> nat \<Rightarrow> cohort \<Rightarrow> nat list \<Rightarrow> error + cohort \<times> nat list" where
  "ask_colleague d i c free_resource_ids =
     (if free_resource_ids = [] then Inl IndexError
      else
        let chosen_idx = choice (d_choice d) free_resource_ids;
            pool' = remove1 chosen_idx free_resource_ids
        in if length (workers c) \<le> chosen_idx then Inl IndexError
           else
             let colleagues_facts = known_facts (workers c ! chosen_idx)
             in case target_fact (workers c ! i) of
                  None \<Rightarrow> Inr (c, pool')
                | Some t \<Rightarrow>
                    if t \<in> set colleagues_facts
                    then Inr (upd_worker i (\<lambda>w. w\<lparr>known_facts := set_add t (known_facts w)\<rparr>) c, pool')
                    else Inr (c, pool'))"

definition SociableResearcer_v2_act ::
  "draws \<Rightarrow> nat \<Rightarrow> cohort \<Rightarrow> nat list \<Rightarrow> error + cohort \<times> nat list" where
  "SociableResearcer_v2_act d i c free_resource_ids =
     (let c1 = upd_worker i (forget d) c;
          at_least_one_free_colleague = (length free_resource_ids > 0);
          feeling_sociable = (d_action d < socialise_rate (workers c1 ! i))
      in if at_least_one_free_colleague \<and> feeling_sociable
         then ask_colleague d i c1 free_resource_ids
         else Inr (upd_worker i (do_research d) c1, free_resource_ids))"

section \<open>DatabaseResearcher\<close>

definition validate_settings :: "DatabaseResearcherSettings \<Rightarrow> error + unit" where
  "validate_settings s =
     (if fadd (fadd (cfg_socialise_rate s) (cfg_database_query_rate s))
             (cfg_database_write_rate s) < 1
      then Inr () else Inl AssertionError)"

definition init_thresholds :: "DatabaseResearcherSettings \<Rightarrow> worker \<Rightarrow> worker" where
  "init_thresholds s w =
     (let w1 = w\<lparr>socialise_threshold := cfg_socialise_rate s\<rparr>;
          w2 = w1\<lparr>database_query_threshold :=
                   fadd (socialise_threshold w1) (cfg_database_query_rate s)\<rparr>
      in w2\<lparr>database_write_threshold :=
              fadd (database_query_threshold w2) (cfg_database_write_rate s)\<rparr>)"

definition DatabaseResearcher_init ::
  "int \<Rightarrow> int list \<Rightarrow> DatabaseResearcherSettings \<Rightarrow> nat \<Rightarrow> nat \<Rightarrow> error + worker" where
  "DatabaseResearcher_init n kf s t1 t2 =
     (let w = SociableResearcer_v2_init DatabaseResearcher n kf
                (cfg_forget_rate s) (cfg_socialise_rate s) t1 t2
      in case validate_settings s of
           Inl e \<Rightarrow> Inl e
         | Inr _ \<Rightarrow>
             Inr ((init_thresholds s w)
                    \<lparr>contribution_success_rate := cfg_contribution_success_rate s\<rparr>))"

definition query_database :: "nat \<Rightarrow> cohort \<Rightarrow> cohort" where
  "query_database i c =
     (case target_fact (workers c ! i) of
        None \<Rightarrow> c
      | Some t \<Rightarrow>
          if t \<in> set (database c)
          then upd_worker i (\<lambda>w. w\<lparr>known_facts := set_add t (known_facts w)\<rparr>) c
          else c)"

definition write_to_database :: "draws \<Rightarrow> nat \<Rightarrow> cohort \<Rightarrow> error + cohort" where
  "write_to_database d i c =
     (let self = workers c ! i
      in if known_facts self = [] then Inl IndexError
         else
           let chosen_fact = choice (d_choice d) (known_facts self);
               succeeds_at_writing = (d_write d < contribution_success_rate self)
           in if succeeds_at_writing
              then Inr (c\<lparr>database := set_add chosen_fact (database c)\<rparr>)
              else Inr c)"

definition DatabaseResearcher_act ::
  "draws \<Rightarrow> nat \<Rightarrow> cohort \<Rightarrow> nat list \<Rightarrow> error + cohort \<times> nat list" where
  "DatabaseResearcher_act d i c free_resource_ids =
     (let c1 = upd_worker i (forget d) c;
          self = workers c1 ! i;
          at_least_one_free_colleague = (length free_resource_ids > 0);
          random_value = d_action d;
          feeling_sociable = (random_value < socialise_threshold self);
          knows_something = (length (known_facts self) > 0)
      in if at_least_one_free_colleague \<and> feeling_sociable
         then ask_colleague d i c1 free_resource_ids
         else if random_value < database_query_threshold self
         then Inr (query_database i c1, free_resource_ids)
         else if knows_something \<and> random_value < database_write_threshold self
         then (case write_to_database d i c1 of
                 Inl e \<Rightarrow> Inl e
               | Inr c2 \<Rightarrow> Inr (c2, free_resource_ids))
         else Inr (upd_worker i (do_research d) c1, free_resource_ids))"

text \<open>\<open>workers[idx].act(free_resources)\<close>: the method of the worker's class.\<close>

definition act :: "draws \<Rightarrow> nat \<Rightarrow> cohort \<Rightarrow> nat list \<Rightarrow> error + cohort \<times> nat list" where
  "act d i c free_resource_ids =
     (case cls (workers c ! i) of
        ForgetfulResearcher_v2 \<Rightarrow> Inr (ForgetfulResearcher_v2_act d i c, free_resource_ids)
      | SociableResearcer_v2 \<Rightarrow> SociableResearcer_v2_act d i c free_resource_ids
      | DatabaseResearcher \<Rightarrow> DatabaseResearcher_act d i c free_resource_ids)"

section \<open>The scheduler\<close>

text \<open>
  The draws of one tick: the list that \<open>random.shuffle\<close> leaves in \<open>free_resources\<close>
  (a permutation of \<open>range(n_workers)\<close>), the draws of the worker at each index (a worker
  acts at most once in a tick) and the draw of its completion check.
\<close>

record tick_draws =
  shuffled :: "nat list"
  act_draws :: "nat \<Rightarrow> draws"
  target_draws :: "nat \<Rightarrow> nat"

text \<open>The body of \<open>for idx in range(n_workers)\<close>.\<close>

definition sched_step :: "tick_draws \<Rightarrow> nat \<Rightarrow> cohort \<times> nat list \<Rightarrow> error + cohort \<times> nat list" where
  "sched_step td idx s =
     (case s of (c, free_resources) \<Rightarrow>
        if idx \<in> set free_resources
        then (if idx < length (workers c)
              then act (act_draws td idx) idx c (remove1 idx free_resources)
              else Inl IndexError)
        else Inr (c, free_resources))"

fun walk :: "tick_draws \<Rightarrow> nat list \<Rightarrow> cohort \<times> nat list \<Rightarrow> error + cohort \<times> nat list" where
  "walk td [] s = Inr s"
| "walk td (idx # idxs) s =
     (case sched_step td idx s of Inl e \<Rightarrow> Inl e | Inr s' \<Rightarrow> walk td idxs s')"

text \<open>\<open>for worker in workers: n_successes_this_step += worker.update()\<close>.\<close>


fun update_loop :: "(nat \<Rightarrow> nat) \<Rightarrow> nat \<Rightarrow> worker list \<Rightarrow> nat \<Rightarrow> worker list \<times> nat" where
  "update_loop tg j [] n = ([], n)"
| "update_loop tg j (w # ws) n =
     (case update (tg j) w of (w', done) \<Rightarrow>
        (case update_loop tg (Suc j) ws (n + (if done then 1 else 0)) of
           (ws', n') \<Rightarrow> (w' # ws', n')))"

text \<open>
  One tick. The quotient \<open>n_successes_this_step/n_workers\<close> of two \<open>int\<close>s is the
  double nearest to the exact quotient.
\<close>

definition tick :: "tick_draws \<Rightarrow> cohort \<Rightarrow> error + cohort \<times> real" where
  "tick td c =
     (let n_workers = length (workers c)
      in case walk td [0..<n_workers] (c, shuffled td) of
           Inl e \<Rightarrow> Inl e
         | Inr (c1, _) \<Rightarrow>
             (case update_loop (target_draws td) 0 (workers c1) 0 of
                (ws', n_successes_this_step) \<Rightarrow>
                  if n_workers = 0 then Inl ZeroDivisionError
                  else Inr (c1\<lparr>workers := ws'\<rparr>,
                            round_double (real n_successes_this_step / real n_workers))))"

fun run_loop ::
  "(nat \<Rightarrow> tick_draws) \<Rightarrow> nat \<Rightarrow> nat \<Rightarrow> cohort \<Rightarrow> real list \<Rightarrow> error + real list \<times> cohort" where
  "run_loop rs t 0 c n_successes = Inr (n_successes, c)"
| "run_loop rs t (Suc k) c n_successes =
     (case tick (rs t) c of
        Inl e \<Rightarrow> Inl e
      | Inr (c', rate) \<Rightarrow> run_loop rs (Suc t) k c' (n_successes @ [rate]))"

text \<open>\<open>range(n_steps)\<close> is empty for a negative \<open>n_steps\<close>.\<close>

definition run_experiment_v2 ::
  "(nat \<Rightarrow> tick_draws) \<Rightarrow> cohort \<Rightarrow> int \<Rightarrow> error + real list \<times> cohort" where
  "run_experiment_v2 rs c n_steps = run_loop rs 0 (nat n_steps) c []"

section \<open>The distributions of the draws\<close>

text \<open>
  The module's \<open>a = 0.8\<close> (the double that the literal denotes) and \<open>b = 2\<close>, the
  parameters of \<open>random.betavariate(a, b)\<close> in \<open>do_research\<close>.
\<close>

definition beta_a :: real where
  "beta_a = 3602879701896397 / 4503599627370496"

definition beta_b :: real where
  "beta_b = 2"

text \<open>
  The density of the Beta distribution, \<open>x\<^sup>a\<^sup>-\<^sup>1 (1 - x)\<^sup>b\<^sup>-\<^sup>1 / B(a, b)\<close>, where
  \<open>B(a, 2) = 1 / (a (a + 1))\<close>, and its distribution function on \<open>[0, 1]\<close> for \<open>b = 2\<close>
  (its derivative is the density, and it runs from 0 to 1: lemmas \<open>beta_cdf_deriv\<close> and
  \<open>beta_cdf_ends\<close>).
\<close>

definition beta_density :: "real \<Rightarrow> real" where
  "beta_density x = beta_a * (beta_a + 1) * (x powr (beta_a - 1) * (1 - x) powr (beta_b - 1))"

definition beta_cdf :: "real \<Rightarrow> real" where
  "beta_cdf x = x powr beta_a * (1 + beta_a * (1 - x))"

text \<open>
  The distribution that the specification names for both draws, Beta(a, b) scaled to the
  integer range \<open>[0, n)\<close>: the probability that \<open>n * X\<close> truncates to \<open>k\<close>, that is,
  that \<open>X\<close> of Beta(a, b) lies in \<open>[k / n, (k + 1) / n)\<close>.
\<close>

definition scaled_beta_pmf :: "int \<Rightarrow> int \<Rightarrow> real" where
  "scaled_beta_pmf n k =
     (if 0 \<le> k \<and> k < n
      then beta_cdf (real_of_int (k + 1) / real_of_int n) - beta_cdf (real_of_int k / real_of_int n)
      else 0)"

text \<open>
  The distribution of \<open>random.randint(lo, hi)\<close>, uniform on the integers of \<open>[lo, hi]\<close>,
  and that of the target drawn by \<open>generate_new_target_fact\<close>.
\<close>

definition randint_pmf :: "int \<Rightarrow> int \<Rightarrow> int \<Rightarrow> real" where
  "randint_pmf lo hi v = (if lo \<le> v \<and> v \<le> hi then 1 / real_of_int (hi - lo + 1) else 0)"

definition target_pmf :: "int \<Rightarrow> real" where
  "target_pmf v = randint_pmf 0 (n_facts_global - 1) v"

section \<open>Predicates used in the statements\<close>

text \<open>The attributes that are set by the constructors and read, never written, by a run.\<close>

definition same_config :: "worker \<Rightarrow> worker \<Rightarrow> bool" where
  "same_config w w' \<longleftrightarrow>
     cls w' = cls w \<and> n_facts w' = n_facts w \<and> forget_rate w' = forget_rate w \<and>
     socialise_rate w' = socialise_rate w \<and>
     contribution_success_rate w' = contribution_success_rate w \<and>
     socialise_threshold w' = socialise_threshold w \<and>
     database_query_threshold w' = database_query_threshold w \<and>
     database_write_threshold w' = database_write_threshold w"

text \<open>
  A step that belongs to worker \<open>i\<close> alone: it may change the known facts of worker \<open>i\<close>
  and nothing else of any worker.
\<close>

definition local_step :: "nat \<Rightarrow> cohort \<Rightarrow> cohort \<Rightarrow> bool" where
  "local_step i c c' \<longleftrightarrow>
     length (workers c') = length (workers c) \<and>
     (\<forall>j. j \<noteq> i \<longrightarrow> workers c' ! j = workers c ! j) \<and>
     same_config (workers c ! i) (workers c' ! i) \<and>
     target_fact (workers c' ! i) = target_fact (workers c ! i)"

text \<open>Every index of the pool designates a worker of the cohort.\<close>

definition pool_ok :: "nat \<Rightarrow> cohort \<times> nat list \<Rightarrow> bool" where
  "pool_ok n s \<longleftrightarrow> length (workers (fst s)) = n \<and> set (snd s) \<subseteq> {..<n}"

text \<open>
  The store is \<open>db\<close> and no worker of the cohort can succeed at writing to it.
\<close>

definition never_contributes :: "int list \<Rightarrow> cohort \<Rightarrow> bool" where
  "never_contributes db c \<longleftrightarrow>
     database c = db \<and> (\<forall>j<length (workers c). contribution_success_rate (workers c ! j) = 0)"

text \<open>
  All workers share the fact space \<open>[0, N)\<close>, and their known facts and the store lie
  within it.
\<close>

definition facts_in_range :: "int \<Rightarrow> cohort \<Rightarrow> bool" where
  "facts_in_range N c \<longleftrightarrow>
     (\<forall>j<length (workers c). n_facts (workers c ! j) = N
        \<and> set (known_facts (workers c ! j)) \<subseteq> {0..<N})
     \<and> set (database c) \<subseteq> {0..<N}"

text \<open>
  The condition under which \<open>act\<close> of a worker calls \<open>ask_colleague\<close>, per class:
  never in \<open>ForgetfulResearcher_v2\<close>; on a non-empty pool and an action draw below
  \<open>socialise_rate\<close> in \<open>SociableResearcer_v2\<close>, below \<open>socialise_threshold\<close> in
  \<open>DatabaseResearcher\<close>.
\<close>

definition asks :: "draws \<Rightarrow> worker \<Rightarrow> nat list \<Rightarrow> bool" where
  "asks d w free_resource_ids \<longleftrightarrow>
     (case cls w of
        ForgetfulResearcher_v2 \<Rightarrow> False
      | SociableResearcer_v2 \<Rightarrow> length free_resource_ids > 0 \<and> d_action d < socialise_rate w
      | DatabaseResearcher \<Rightarrow>
          length free_resource_ids > 0 \<and> d_action d < socialise_threshold w)"

section \<open>Example cohorts and draws\<close>

text \<open>
  A \<open>DatabaseResearcher\<close> with the thresholds 0.1, 0.2 and 0.25, forget rate 0.5 and
  contribution rate 0.1, on the given fact space, known facts and target. The rates and
  the draws of the examples enter comparisons only, where the decimal fraction and the
  double that Python reads for it fall on the same side; a draw that is multiplied is
  given as the double itself.
\<close>

definition example_worker :: "int \<Rightarrow> int list \<Rightarrow> int \<Rightarrow> worker" where
  "example_worker n kf t =
     \<lparr>cls = DatabaseResearcher, n_facts = n, known_facts = kf, target_fact = Some t,
      forget_rate = 1 / 2, socialise_rate = 1 / 10, contribution_success_rate = 1 / 10,
      socialise_threshold = 1 / 10, database_query_threshold = 2 / 10,
      database_write_threshold = 1 / 4\<rparr>"

definition example_draws :: "real \<Rightarrow> real \<Rightarrow> real \<Rightarrow> draws" where
  "example_draws f r x =
     \<lparr>d_forget = f, d_pop = 0, d_action = r, d_choice = 0, d_write = 0, d_beta = x\<rparr>"

text \<open>A tick in which every acting worker draws 0.05, below the socialise threshold.\<close>

definition ask_tick :: tick_draws where
  "ask_tick = \<lparr>shuffled = [0, 1], act_draws = (\<lambda>i. example_draws 0 (1 / 20) (1 / 2)),
               target_draws = (\<lambda>i. 5)\<rparr>"

definition ask_cohort :: cohort where
  "ask_cohort = \<lparr>workers = [example_worker 100 [] 7, example_worker 100 [7] 3], database = []\<rparr>"

definition empty_cohort :: cohort where
  "empty_cohort = \<lparr>workers = [], database = []\<rparr>"

definition example_settings :: "real \<Rightarrow> real \<Rightarrow> real \<Rightarrow> DatabaseResearcherSettings" where
  "example_settings s q w =
     \<lparr>cfg_forget_rate = 1 / 100, cfg_socialise_rate = s, cfg_contribution_success_rate = 1 / 10,
      cfg_database_query_rate = q, cfg_database_write_rate = w\<rparr>"

text \<open>
  Two workers with contribution rate 0, and a tick in which every acting worker draws
  0.22, in the write band, without forgetting.
\<close>

definition silent_cohort :: cohort where
  "silent_cohort =
     \<lparr>workers = [(example_worker 100 [7] 3)\<lparr>contribution_success_rate := 0\<rparr>,
                 (example_worker 100 [4] 9)\<lparr>contribution_success_rate := 0\<rparr>],
      database = []\<rparr>"

definition write_tick :: tick_draws where
  "write_tick = \<lparr>shuffled = [1, 0], act_draws = (\<lambda>i. example_draws (9 / 10) (11 / 50) (1 / 2)),
                 target_draws = (\<lambda>i. 5)\<rparr>"

text \<open>
  A worker on the fact space \<open>[0, 10)\<close> beside one on \<open>[0, 100)\<close>, both knowing nothing
  and with targets in their own fact spaces. In the first tick both research (worker 0
  draws the double 0.3 and finds its target 3, worker 1 draws 0.5 and finds 50) and
  worker 0 draws 50 as its new target; in the second tick worker 0 asks worker 1.
\<close>

definition mixed_cohort :: cohort where
  "mixed_cohort = \<lparr>workers = [example_worker 10 [] 3, example_worker 100 [] 7], database = []\<rparr>"

definition mixed_draws :: "nat \<Rightarrow> tick_draws" where
  "mixed_draws t =
     (if t = 0
      then \<lparr>shuffled = [0, 1],
            act_draws = (\<lambda>i. example_draws (9 / 10) (9 / 10)
                           (if i = 0 then 5404319552844595 / 18014398509481984 else 1 / 2)),
            target_draws = (\<lambda>i. 50)\<rparr>
      else \<lparr>shuffled = [0, 1],
            act_draws = (\<lambda>i. example_draws (9 / 10) (1 / 20) (1 / 2)),
            target_draws = (\<lambda>i. 50)\<rparr>)"

section \<open>Properties of the floating-point operations\<close>

lemmas float_defs = fadd_def fmul_def float_of_int_def is_double_def round_double_def
  exponent_def pow2_def round_half_even_def compute_floorlog Let_def

lemma pow2_pos [simp]: "0 < pow2 e"
  by (simp add: pow2_def)

lemma pow2_powr: "pow2 e = 2 powr (real_of_int e)"
  by (simp add: pow2_def powr_int)

lemma pow2_minus_nat: "pow2 (- int k) = 1 / 2 ^ k"
  by (simp add: pow2_powr powr_minus powr_realpow inverse_eq_divide)

lemma pow2_add: "pow2 (d + e) = pow2 d * pow2 e"
  by (simp add: pow2_powr powr_add)

lemma pow2_neq_0 [simp]: "pow2 e \<noteq> 0"
  by (simp add: pow2_def)

lemma pow2_nonneg [simp]: "0 \<le> pow2 e"
  by (simp add: pow2_def)

lemma pow2_Suc: "pow2 (e + 1) = 2 * pow2 e"
proof -
  have "pow2 1 = 2" by (simp add: pow2_def)
  then show ?thesis using pow2_add[of e 1] by simp
qed

lemma pow2_minus_53: "pow2 (e - 53) = pow2 e / 2 ^ 53"
proof -
  have "pow2 (e - 53) = pow2 e * pow2 (- 53)"
    using pow2_add[of e "- 53"] by simp
  then show ?thesis by (simp add: pow2_def)
qed

lemma pow2_minus_52: "pow2 (e - 52) = pow2 e / 2 ^ 52"
proof -
  have "pow2 (e - 52) = pow2 e * pow2 (- 52)"
    using pow2_add[of e "- 52"] by simp
  then show ?thesis by (simp add: pow2_def)
qed

lemma exponent_bounds:
  assumes "0 < x"
  shows "pow2 (exponent x) \<le> x" and "x < pow2 (exponent x + 1)"
proof -
  have "pow2 (exponent x) \<le> x \<and> x < pow2 (exponent x + 1)"
  proof (cases "1 \<le> x")
    case True
    let ?n = "nat \<lfloor>x\<rfloor>"
    let ?m = "floorlog 2 ?n"
    have n: "0 < ?n" using True by simp
    from floorlog_bounds[OF n, of 2]
    have lo: "2 ^ (?m - 1) \<le> ?n" and hi: "?n < 2 ^ ?m" by simp_all
    have m: "1 \<le> ?m" using hi n by (cases ?m) simp_all
    have e: "exponent x = int ?m - 1" using True by (simp add: exponent_def)
    have e0: "nat (int ?m - 1) = ?m - 1" by simp
    have "real (2 ^ (?m - 1)) \<le> real ?n" using lo by (rule iffD2[OF of_nat_le_iff])
    also have "real ?n \<le> x" using True by simp
    finally have a: "pow2 (exponent x) \<le> x"
      using m unfolding e by (simp add: pow2_def e0)
    have "Suc ?n \<le> 2 ^ ?m" using hi by (rule Suc_leI)
    then have "real (Suc ?n) \<le> real (2 ^ ?m)" by (rule iffD2[OF of_nat_le_iff])
    moreover have "x < real (Suc ?n)" using True by simp linarith
    ultimately have "x < 2 ^ ?m" by simp
    then have b: "x < pow2 (exponent x + 1)" unfolding e by (simp add: pow2_def)
    from a b show ?thesis ..
  next
    case False
    then have x1: "x < 1" by simp
    let ?c = "\<lceil>1 / x\<rceil>"
    let ?n = "nat (?c - 1)"
    let ?m = "floorlog 2 ?n"
    have "1 < 1 / x" using assms x1 by simp
    then have c: "2 \<le> ?c" by linarith
    then have n: "0 < ?n" by simp
    have "0 \<le> ?c - 1" using c by linarith
    then have "real ?n = real_of_int (?c - 1)" by (rule of_nat_nat)
    also have "\<dots> = of_int ?c - 1" by (simp only: of_int_diff of_int_1)
    finally have rn: "real ?n = of_int ?c - 1" .
    from floorlog_bounds[OF n, of 2]
    have lo: "2 ^ (?m - 1) \<le> ?n" and hi: "?n < 2 ^ ?m" by simp_all
    have m: "1 \<le> ?m" using hi n by (cases ?m) simp_all
    have e: "exponent x = - int ?m" using False by (simp add: exponent_def)
    have "Suc ?n \<le> 2 ^ ?m" using hi by (rule Suc_leI)
    then have up: "real (Suc ?n) \<le> real (2 ^ ?m)" by (rule iffD2[OF of_nat_le_iff])
    have "1 / x \<le> of_int ?c" by (rule le_of_int_ceiling)
    also have "of_int ?c = real (Suc ?n)" using rn by simp
    also note up
    finally have "1 / x \<le> 2 ^ ?m" by simp
    then have "1 \<le> 2 ^ ?m * x" using assms by (simp add: field_simps)
    then have a: "pow2 (exponent x) \<le> x"
      unfolding e pow2_minus_nat by (simp add: field_simps)
    have "real (2 ^ (?m - 1)) \<le> real ?n" using lo by (rule iffD2[OF of_nat_le_iff])
    also note rn
    also have "of_int ?c - 1 < 1 / x" by linarith
    finally have "2 ^ (?m - 1) < 1 / x" by simp
    then have lt: "2 ^ (?m - 1) * x < 1" using assms by (simp add: field_simps)
    have "exponent x + 1 = - int (?m - 1)" unfolding e using m by simp
    then have p: "pow2 (exponent x + 1) = 1 / 2 ^ (?m - 1)"
      by (simp only: pow2_minus_nat)
    have "x < 1 / 2 ^ (?m - 1)" using lt by (simp add: field_simps)
    then have b: "x < pow2 (exponent x + 1)" by (simp only: p)
    from a b show ?thesis ..
  qed
  then show "pow2 (exponent x) \<le> x" and "x < pow2 (exponent x + 1)" by simp_all
qed

lemma round_half_even_bounds:
  "real_of_int (round_half_even y) \<le> y + 1 / 2" "y - 1 / 2 \<le> real_of_int (round_half_even y)"
  by (simp_all add: round_half_even_def Let_def) linarith+

lemma round_half_even_of_int [simp]: "round_half_even (of_int m) = m"
  by (simp add: round_half_even_def)

lemma round_half_even_le:
  assumes "y \<le> of_int m"
  shows "round_half_even y \<le> m"
proof (cases "y = of_int m")
  case True
  then show ?thesis by simp
next
  case False
  with assms have lt: "y < of_int m" by simp
  then have f: "\<lfloor>y\<rfloor> < m" by (simp add: floor_less_iff)
  have "round_half_even y \<le> \<lfloor>y\<rfloor> + 1"
    by (simp add: round_half_even_def Let_def)
  with f show ?thesis by simp
qed

lemma round_half_even_ge:
  assumes "of_int m \<le> y"
  shows "m \<le> round_half_even y"
proof -
  have "m \<le> \<lfloor>y\<rfloor>" using assms by (simp add: le_floor_iff)
  moreover have "\<lfloor>y\<rfloor> \<le> round_half_even y"
    by (simp add: round_half_even_def Let_def)
  ultimately show ?thesis by simp
qed

text \<open>The relative error of rounding a positive number.\<close>

lemma round_double_upper:
  assumes "0 < x"
  shows "round_double x \<le> x * (1 + 1 / 2 ^ 53)"
proof -
  let ?q = "pow2 (exponent x - 52)"
  have q: "0 < ?q" by simp
  have r: "round_double x = of_int (round_half_even (x / ?q)) * ?q"
    using assms by (simp add: round_double_def Let_def)
  have "of_int (round_half_even (x / ?q)) * ?q \<le> (x / ?q + 1 / 2) * ?q"
    using round_half_even_bounds(1)[of "x / ?q"] q by (intro mult_right_mono) simp_all
  also have "\<dots> = x + ?q / 2" using q by (simp add: field_simps)
  also have "?q / 2 = pow2 (exponent x) / 2 ^ 53" by (simp add: pow2_minus_52)
  also have "x + pow2 (exponent x) / 2 ^ 53 \<le> x + x / 2 ^ 53"
    using exponent_bounds(1)[OF assms] by (simp add: divide_right_mono)
  finally show ?thesis unfolding r by (simp add: field_simps)
qed

lemma round_double_nonneg:
  assumes "0 \<le> x"
  shows "0 \<le> round_double x"
proof (cases "x = 0")
  case True
  then show ?thesis by (simp add: round_double_def)
next
  case False
  let ?q = "pow2 (exponent \<bar>x\<bar> - 52)"
  have "0 \<le> x / ?q" using assms by simp
  then have "0 \<le> round_half_even (x / ?q)"
    using round_half_even_ge[of 0 "x / ?q"] by simp
  then show ?thesis using False by (simp add: round_double_def Let_def)
qed

text \<open>A double below 1 is at most \<open>1 - 2\<^sup>-\<^sup>5\<^sup>3\<close>.\<close>

lemma is_double_below_one:
  assumes "is_double x" and "0 \<le> x" and "x < 1"
  shows "x \<le> 1 - 1 / 2 ^ 53"
proof (cases "x < 1 / 2")
  case True
  have "(1::real) / 2 \<le> 1 - 1 / 2 ^ 53" by simp
  with True show ?thesis by linarith
next
  case False
  then have x: "1 / 2 \<le> x" by simp
  then have pos: "0 < x" by simp
  have "exponent x = - 1"
  proof -
    have "1 < 1 / x" using pos assms(3) by simp
    moreover have "1 / x \<le> 2" using x pos by (simp add: field_simps)
    ultimately have "\<lceil>1 / x\<rceil> = 2" by linarith
    then show ?thesis using assms(3) by (simp add: exponent_def compute_floorlog)
  qed
  then have q: "pow2 (exponent \<bar>x\<bar> - 52) = 1 / 2 ^ 53"
    using pos by (simp add: pow2_def)
  let ?m = "round_half_even (x * 2 ^ 53)"
  have r: "x = of_int ?m / 2 ^ 53"
    using assms(1) pos unfolding is_double_def round_double_def q Let_def by simp
  have "of_int ?m < (2::real) ^ 53" using assms(3) r by (simp add: field_simps)
  then have "of_int ?m < real_of_int (2 ^ 53)" by simp
  then have "?m < 2 ^ 53" by (rule iffD1[OF of_int_less_iff])
  then have "?m \<le> 2 ^ 53 - 1" by simp
  then have "real_of_int ?m \<le> real_of_int (2 ^ 53 - 1)" by (rule iffD2[OF of_int_le_iff])
  then have "real_of_int ?m \<le> 2 ^ 53 - 1" by simp
  then have "of_int ?m / 2 ^ 53 \<le> ((2::real) ^ 53 - 1) / 2 ^ 53"
    by (rule divide_right_mono) simp
  then show ?thesis using r by (simp add: field_simps)
qed

text \<open>The product of a positive double and a double of \<open>[0, 1)\<close> rounds below the former.\<close>

lemma fmul_below:
  assumes "0 < n" and "is_double x" and "0 \<le> x" and "x < 1"
  shows "0 \<le> fmul n x" and "fmul n x < n"
proof -
  show "0 \<le> fmul n x"
    using assms(1,3) by (simp add: fmul_def round_double_nonneg)
  show "fmul n x < n"
  proof (cases "x = 0")
    case True
    then show ?thesis using assms(1) by (simp add: fmul_def round_double_def)
  next
    case False
    with assms(3) have "0 < x" by simp
    then have pos: "0 < n * x" using assms(1) by simp
    have x: "x \<le> 1 - 1 / 2 ^ 53" using assms(2,3,4) by (rule is_double_below_one)
    have "fmul n x \<le> n * x * (1 + 1 / 2 ^ 53)"
      unfolding fmul_def using pos by (rule round_double_upper)
    also have "\<dots> = n * (x * (1 + 1 / 2 ^ 53))" by simp
    also have "x * (1 + 1 / 2 ^ 53) \<le> (1 - 1 / 2 ^ 53) * (1 + 1 / 2 ^ 53)"
      using x by (intro mult_right_mono) simp_all
    also have "(1 - 1 / 2 ^ 53) * (1 + 1 / 2 ^ 53) < (1::real)" by simp
    finally show ?thesis using assms(1) by simp
  qed
qed

lemma pow2_less_imp: "pow2 d < pow2 e \<Longrightarrow> d < e"
  by (simp add: pow2_powr)

lemma round_double_scaled:
  assumes "0 < y" and "y < 2 ^ 53"
  obtains j where "round_double y = of_int (round_half_even (y * 2 ^ j)) / 2 ^ j"
proof -
  let ?e = "exponent y"
  have "pow2 ?e \<le> y" using assms(1) by (rule exponent_bounds(1))
  also have "y < pow2 53" using assms(2) by (simp add: pow2_def)
  finally have "?e < 53" by (rule pow2_less_imp)
  then have e: "?e - 52 = - int (nat (52 - ?e))" by simp
  have q: "pow2 (?e - 52) = 1 / 2 ^ nat (52 - ?e)" by (simp only: e pow2_minus_nat)
  have "round_double y = of_int (round_half_even (y * 2 ^ nat (52 - ?e))) / 2 ^ nat (52 - ?e)"
    using assms(1) by (simp add: round_double_def Let_def q)
  then show ?thesis by (rule that)
qed

lemma round_double_floor_bounds:
  assumes "0 \<le> y" and "y < 2 ^ 53"
  shows "real_of_int \<lfloor>y\<rfloor> \<le> round_double y" and "round_double y \<le> real_of_int \<lfloor>y\<rfloor> + 1"
proof -
  have "real_of_int \<lfloor>y\<rfloor> \<le> round_double y \<and> round_double y \<le> real_of_int \<lfloor>y\<rfloor> + 1"
  proof (cases "y = 0")
    case True
    then show ?thesis by (simp add: round_double_def)
  next
    case False
    with assms(1) have pos: "0 < y" by simp
    from round_double_scaled[OF pos assms(2)]
    obtain j where r: "round_double y = of_int (round_half_even (y * 2 ^ j)) / 2 ^ j" .
    have "real_of_int (\<lfloor>y\<rfloor> * 2 ^ j) \<le> y * 2 ^ j"
      by (simp add: mult_right_mono)
    then have "\<lfloor>y\<rfloor> * 2 ^ j \<le> round_half_even (y * 2 ^ j)" by (rule round_half_even_ge)
    then have "real_of_int (\<lfloor>y\<rfloor> * 2 ^ j) \<le> real_of_int (round_half_even (y * 2 ^ j))"
      by (rule iffD2[OF of_int_le_iff])
    then have lo: "real_of_int \<lfloor>y\<rfloor> \<le> round_double y"
      unfolding r by (simp add: field_simps)
    have "y \<le> real_of_int \<lfloor>y\<rfloor> + 1" by linarith
    then have "y * 2 ^ j \<le> (real_of_int \<lfloor>y\<rfloor> + 1) * 2 ^ j" by (simp add: mult_right_mono)
    then have "y * 2 ^ j \<le> real_of_int ((\<lfloor>y\<rfloor> + 1) * 2 ^ j)" by simp
    then have "round_half_even (y * 2 ^ j) \<le> (\<lfloor>y\<rfloor> + 1) * 2 ^ j" by (rule round_half_even_le)
    then have "real_of_int (round_half_even (y * 2 ^ j)) \<le> real_of_int ((\<lfloor>y\<rfloor> + 1) * 2 ^ j)"
      by (rule iffD2[OF of_int_le_iff])
    then have hi: "round_double y \<le> real_of_int \<lfloor>y\<rfloor> + 1"
      unfolding r by (simp add: field_simps)
    from lo hi show ?thesis ..
  qed
  then show "real_of_int \<lfloor>y\<rfloor> \<le> round_double y" and "round_double y \<le> real_of_int \<lfloor>y\<rfloor> + 1"
    by simp_all
qed

lemma is_double_of_int:
  assumes "0 \<le> n" and "n < 2 ^ 53"
  shows "is_double (real_of_int n)"
proof (cases "n = 0")
  case True
  then show ?thesis by (simp add: is_double_def round_double_def)
next
  case False
  with assms(1) have pos: "0 < real_of_int n" by simp
  have "real_of_int n < real_of_int (2 ^ 53)" using assms(2) by (rule iffD2[OF of_int_less_iff])
  then have lt: "real_of_int n < 2 ^ 53" by simp
  from round_double_scaled[OF pos lt]
  obtain j where r: "round_double (real_of_int n)
      = of_int (round_half_even (real_of_int n * 2 ^ j)) / 2 ^ j" .
  have "real_of_int n * 2 ^ j = real_of_int (n * 2 ^ j)" by simp
  then have "round_half_even (real_of_int n * 2 ^ j) = n * 2 ^ j"
    by (simp only: round_half_even_of_int)
  then show ?thesis unfolding is_double_def r by simp
qed


lemma round_double_simple [simp]:
  "round_double 0 = 0" "round_double (1 / 2) = 1 / 2" "round_double 1 = 1"
  by (simp_all add: float_defs)

lemma is_double_float_of_int: "is_double (real_of_int n) \<Longrightarrow> float_of_int n = real_of_int n"
  by (simp add: is_double_def float_of_int_def)

section \<open>Properties of the actions\<close>

lemmas example_defs = example_worker_def example_draws_def ask_tick_def ask_cohort_def
  empty_cohort_def example_settings_def silent_cohort_def write_tick_def mixed_cohort_def
  mixed_draws_def

lemmas model_defs = tick_def sched_step_def act_def DatabaseResearcher_act_def
  SociableResearcer_v2_act_def ForgetfulResearcher_v2_act_def ask_colleague_def
  query_database_def write_to_database_def do_research_def
  upd_worker_def forget_def choice_def set_add_def update_def target_known_def
  generate_new_target_fact_def randint_def n_facts_global_def run_experiment_v2_def Let_def

lemma forget_keeps [simp]:
  "cls (forget d w) = cls w" "n_facts (forget d w) = n_facts w"
  "target_fact (forget d w) = target_fact w" "forget_rate (forget d w) = forget_rate w"
  "socialise_rate (forget d w) = socialise_rate w"
  "contribution_success_rate (forget d w) = contribution_success_rate w"
  "socialise_threshold (forget d w) = socialise_threshold w"
  "database_query_threshold (forget d w) = database_query_threshold w"
  "database_write_threshold (forget d w) = database_write_threshold w"
  by (simp_all add: forget_def)

lemma do_research_keeps [simp]:
  "cls (do_research d w) = cls w" "n_facts (do_research d w) = n_facts w"
  "target_fact (do_research d w) = target_fact w" "forget_rate (do_research d w) = forget_rate w"
  "socialise_rate (do_research d w) = socialise_rate w"
  "contribution_success_rate (do_research d w) = contribution_success_rate w"
  "socialise_threshold (do_research d w) = socialise_threshold w"
  "database_query_threshold (do_research d w) = database_query_threshold w"
  "database_write_threshold (do_research d w) = database_write_threshold w"
  by (simp_all add: do_research_def Let_def)

lemma workers_upd_worker [simp]:
  "workers (upd_worker i f c) = (workers c)[i := f (workers c ! i)]"
  "database (upd_worker i f c) = database c"
  by (simp_all add: upd_worker_def)

lemma same_config_refl [simp]: "same_config w w"
  by (simp add: same_config_def)

lemma same_config_trans: "same_config w w' \<Longrightarrow> same_config w' w'' \<Longrightarrow> same_config w w''"
  by (simp add: same_config_def)

lemma same_config_forget [simp]: "same_config w (forget d w)"
  by (simp add: same_config_def)

lemma same_config_do_research [simp]: "same_config w (do_research d w)"
  by (simp add: same_config_def)

lemma same_config_known_facts [simp]: "same_config w (w'\<lparr>known_facts := kf\<rparr>) = same_config w w'"
  by (simp add: same_config_def)

lemma same_config_target [simp]: "same_config w (w'\<lparr>target_fact := t\<rparr>) = same_config w w'"
  by (simp add: same_config_def)

text \<open>What one call of ask_colleague changes.\<close>

lemma ask_colleague_result:
  assumes "ask_colleague d i c pool = Inr (c', pool')"
  shows "pool \<noteq> []" "pool' = remove1 (choice (d_choice d) pool) pool"
    "choice (d_choice d) pool < length (workers c)"
    "database c' = database c"
    "length (workers c') = length (workers c)"
    "\<forall>j. j \<noteq> i \<longrightarrow> workers c' ! j = workers c ! j"
    "c' = c \<or> (\<exists>t. target_fact (workers c ! i) = Some t
              \<and> t \<in> set (known_facts (workers c ! choice (d_choice d) pool))
              \<and> c' = upd_worker i (\<lambda>w. w\<lparr>known_facts := set_add t (known_facts w)\<rparr>) c)"
  using assms
  by (auto simp: ask_colleague_def Let_def split: if_splits option.splits)

lemma ask_colleague_no_error:
  assumes "pool \<noteq> []" "set pool \<subseteq> {..<length (workers c)}"
  shows "\<exists>s'. ask_colleague d i c pool = Inr s'"
proof -
  have "choice (d_choice d) pool \<in> set pool"
    using assms(1) by (simp add: choice_def)
  then have "choice (d_choice d) pool < length (workers c)"
    using assms(2) by auto
  then show ?thesis
    using assms(1) by (auto simp: ask_colleague_def Let_def split: option.splits)
qed


lemma local_step_refl [simp]: "local_step i c c"
  by (simp add: local_step_def)

lemma local_step_trans: "local_step i c c' \<Longrightarrow> local_step i c' c'' \<Longrightarrow> local_step i c c''"
  by (auto simp: local_step_def intro: same_config_trans)

lemma local_step_upd_worker:
  assumes "i < length (workers c)" "same_config (workers c ! i) (f (workers c ! i))"
    "target_fact (f (workers c ! i)) = target_fact (workers c ! i)"
  shows "local_step i c (upd_worker i f c)"
  using assms by (simp add: local_step_def)

lemma local_step_database [simp]: "local_step i c (c'\<lparr>database := db\<rparr>) = local_step i c c'"
  by (simp add: local_step_def)

lemma local_step_forget: "i < length (workers c) \<Longrightarrow> local_step i c (upd_worker i (forget d) c)"
  by (rule local_step_upd_worker) simp_all

lemma local_step_do_research:
  "i < length (workers c) \<Longrightarrow> local_step i c (upd_worker i (do_research d) c)"
  by (rule local_step_upd_worker) simp_all

lemma local_step_add:
  "i < length (workers c) \<Longrightarrow>
   local_step i c (upd_worker i (\<lambda>w. w\<lparr>known_facts := set_add t (known_facts w)\<rparr>) c)"
  by (rule local_step_upd_worker) simp_all

lemma local_step_query: "i < length (workers c) \<Longrightarrow> local_step i c (query_database i c)"
  by (simp add: query_database_def local_step_add split: option.splits)

lemma local_step_write:
  "write_to_database d i c = Inr c' \<Longrightarrow> local_step i c c'"
  by (auto simp: write_to_database_def Let_def split: if_splits)

lemma local_step_ask:
  assumes "ask_colleague d i c pool = Inr (c', pool')" "i < length (workers c)"
  shows "local_step i c c'"
  using ask_colleague_result(7)[OF assms(1)] assms(2) by (auto simp: local_step_add)

lemma length_upd_worker [simp]: "length (workers (upd_worker i f c)) = length (workers c)"
  by simp

lemma act_local_step:
  assumes "act d i c pool = Inr (c', pool')" and "i < length (workers c)"
  shows "local_step i c c'"
proof -
  let ?c1 = "upd_worker i (forget d) c"
  have l1: "local_step i c ?c1"
    using assms(2) by (rule local_step_forget)
  have i1: "i < length (workers ?c1)"
    using assms(2) by simp
  have "local_step i ?c1 c'"
  proof (cases "cls (workers c ! i)")
    case ForgetfulResearcher_v2
    then have "c' = upd_worker i (do_research d) ?c1"
      using assms(1) by (simp add: act_def ForgetfulResearcher_v2_act_def)
    then show ?thesis using local_step_do_research[OF i1] by simp
  next
    case SociableResearcer_v2
    then have "ask_colleague d i ?c1 pool = Inr (c', pool') \<or> c' = upd_worker i (do_research d) ?c1"
      using assms(1) by (auto simp: act_def SociableResearcer_v2_act_def Let_def split: if_splits)
    then show ?thesis
      using local_step_do_research[OF i1] local_step_ask[OF _ i1] by blast
  next
    case DatabaseResearcher
    then have "ask_colleague d i ?c1 pool = Inr (c', pool') \<or> c' = query_database i ?c1
        \<or> write_to_database d i ?c1 = Inr c' \<or> c' = upd_worker i (do_research d) ?c1"
      using assms(1)
      by (auto simp: act_def DatabaseResearcher_act_def Let_def split: if_splits sum.splits)
    then show ?thesis
      using local_step_do_research[OF i1] local_step_ask[OF _ i1] local_step_query[OF i1]
        local_step_write by blast
  qed
  with l1 show ?thesis by (rule local_step_trans)
qed

lemma act_pool:
  assumes "act d i c pool = Inr (c', pool')"
  shows "pool' = pool \<or> (pool \<noteq> [] \<and> pool' = remove1 (choice (d_choice d) pool) pool
           \<and> ask_colleague d i (upd_worker i (forget d) c) pool = Inr (c', pool'))"
proof (cases "cls (workers c ! i)")
  case ForgetfulResearcher_v2
  then show ?thesis using assms by (simp add: act_def)
next
  case SociableResearcer_v2
  then have "ask_colleague d i (upd_worker i (forget d) c) pool = Inr (c', pool') \<or> pool' = pool"
    using assms by (auto simp: act_def SociableResearcer_v2_act_def Let_def split: if_splits)
  then show ?thesis using ask_colleague_result(1,2) by blast
next
  case DatabaseResearcher
  then have "ask_colleague d i (upd_worker i (forget d) c) pool = Inr (c', pool') \<or> pool' = pool"
    using assms
    by (auto simp: act_def DatabaseResearcher_act_def Let_def split: if_splits sum.splits)
  then show ?thesis using ask_colleague_result(1,2) by blast
qed

lemma act_asks:
  assumes "i < length (workers c)" and "asks d (workers c ! i) pool"
  shows "act d i c pool = ask_colleague d i (upd_worker i (forget d) c) pool"
  using assms
  by (cases "cls (workers c ! i)")
    (simp_all add: asks_def act_def SociableResearcer_v2_act_def DatabaseResearcher_act_def Let_def)

lemma act_not_asks:
  assumes "i < length (workers c)" and "\<not> asks d (workers c ! i) pool"
    and "act d i c pool = Inr (c', pool')"
  shows "pool' = pool"
  using assms
  by (cases "cls (workers c ! i)")
    (auto simp: asks_def act_def SociableResearcer_v2_act_def DatabaseResearcher_act_def Let_def
      split: if_splits sum.splits)

lemma act_no_error:
  assumes "set pool \<subseteq> {..<length (workers c)}"
  shows "\<exists>s'. act d i c pool = Inr s'"
proof -
  let ?c1 = "upd_worker i (forget d) c"
  have ask: "pool \<noteq> [] \<Longrightarrow> \<exists>s'. ask_colleague d i ?c1 pool = Inr s'"
    using assms by (intro ask_colleague_no_error) simp_all
  show ?thesis
  proof (cases "cls (workers c ! i)")
    case ForgetfulResearcher_v2
    then show ?thesis by (simp add: act_def)
  next
    case SociableResearcer_v2
    then show ?thesis using ask by (auto simp: act_def SociableResearcer_v2_act_def Let_def)
  next
    case DatabaseResearcher
    then show ?thesis using ask
      by (auto simp: act_def DatabaseResearcher_act_def Let_def write_to_database_def)
  qed
qed


section \<open>The walk of one tick\<close>

lemma sched_step_skip:
  "idx \<notin> set pool \<Longrightarrow> sched_step td idx (c, pool) = Inr (c, pool)"
  by (simp add: sched_step_def)

lemma sched_step_acts:
  "idx \<in> set pool \<Longrightarrow> idx < length (workers c) \<Longrightarrow>
   sched_step td idx (c, pool) = act (act_draws td idx) idx c (remove1 idx pool)"
  by (simp add: sched_step_def)

lemma sched_step_cases:
  assumes "sched_step td idx (c, pool) = Inr (c', pool')"
  obtains (skip) "idx \<notin> set pool" "c' = c" "pool' = pool"
  | (acts) "idx \<in> set pool" "idx < length (workers c)"
      "act (act_draws td idx) idx c (remove1 idx pool) = Inr (c', pool')"
  using assms by (auto simp: sched_step_def split: if_splits)

lemma sched_step_no_error:
  assumes "set pool \<subseteq> {..<length (workers c)}"
  shows "\<exists>s'. sched_step td idx (c, pool) = Inr s'"
proof (cases "idx \<in> set pool")
  case True
  then have "idx < length (workers c)" using assms by auto
  moreover have "set (remove1 idx pool) \<subseteq> {..<length (workers c)}"
    using assms set_remove1_subset by fast
  ultimately show ?thesis
    using True act_no_error by (simp add: sched_step_def)
next
  case False
  then show ?thesis by (simp add: sched_step_def)
qed

lemma sched_step_pool:
  assumes "sched_step td idx (c, pool) = Inr (c', pool')"
  shows "set pool' \<subseteq> set pool" and "distinct pool \<Longrightarrow> distinct pool'"
    and "distinct pool \<Longrightarrow> idx \<notin> set pool'"
proof -
  have "set pool' \<subseteq> set pool \<and> (distinct pool \<longrightarrow> distinct pool' \<and> idx \<notin> set pool')"
    using assms
  proof (cases rule: sched_step_cases)
    case skip
    then show ?thesis by simp
  next
    case acts
    let ?p1 = "remove1 idx pool"
    from act_pool[OF acts(3)]
    have "pool' = ?p1 \<or> pool' = remove1 (choice (d_choice (act_draws td idx)) ?p1) ?p1"
      by blast
    then have "set pool' \<subseteq> set ?p1" and "distinct ?p1 \<longrightarrow> distinct pool'"
      using set_remove1_subset by fastforce+
    then show ?thesis
      using set_remove1_subset[of idx pool] by (auto simp: distinct_remove1)
  qed
  then show "set pool' \<subseteq> set pool" and "distinct pool \<Longrightarrow> distinct pool'"
    and "distinct pool \<Longrightarrow> idx \<notin> set pool'" by blast+
qed

lemma sched_step_workers:
  assumes "sched_step td idx (c, pool) = Inr (c', pool')"
  shows "length (workers c') = length (workers c)"
    and "same_config (workers c ! j) (workers c' ! j)"
    and "target_fact (workers c' ! j) = target_fact (workers c ! j)"
proof -
  have "length (workers c') = length (workers c) \<and> same_config (workers c ! j) (workers c' ! j)
      \<and> target_fact (workers c' ! j) = target_fact (workers c ! j)"
    using assms
  proof (cases rule: sched_step_cases)
    case skip
    then show ?thesis by simp
  next
    case acts
    from act_local_step[OF acts(3) acts(2)] show ?thesis
      by (cases "j = idx") (auto simp: local_step_def)
  qed
  then show "length (workers c') = length (workers c)"
    and "same_config (workers c ! j) (workers c' ! j)"
    and "target_fact (workers c' ! j) = target_fact (workers c ! j)" by blast+
qed

lemma walk_append:
  "walk td (xs @ ys) s = (case walk td xs s of Inl e \<Rightarrow> Inl e | Inr s' \<Rightarrow> walk td ys s')"
  by (induction xs arbitrary: s) (auto split: sum.splits)

lemma walk_invariant:
  assumes "walk td idxs s = Inr s'" and "P s"
    and "\<And>idx s s'. P s \<Longrightarrow> sched_step td idx s = Inr s' \<Longrightarrow> P s'"
  shows "P s'"
  using assms(1,2)
proof (induction idxs arbitrary: s)
  case Nil
  then show ?case by simp
next
  case (Cons idx idxs)
  then obtain s1 where s1: "sched_step td idx s = Inr s1" and w: "walk td idxs s1 = Inr s'"
    by (auto split: sum.splits)
  from assms(3)[OF Cons.prems(2) s1] have "P s1" .
  with Cons.IH[OF w] show ?case .
qed

lemma pool_ok_step:
  assumes "pool_ok n s" "sched_step td idx s = Inr s'"
  shows "pool_ok n s'"
proof -
  obtain c pool c' pool' where s: "s = (c, pool)" "s' = (c', pool')"
    by (cases s, cases s') auto
  show ?thesis
    using assms sched_step_pool(1)[of td idx c pool c' pool']
      sched_step_workers(1)[of td idx c pool c' pool']
    unfolding s pool_ok_def by auto
qed

lemma walk_no_error:
  assumes "pool_ok n s"
  shows "\<exists>s'. walk td idxs s = Inr s' \<and> pool_ok n s'"
  using assms
proof (induction idxs arbitrary: s)
  case Nil
  then show ?case by simp
next
  case (Cons idx idxs)
  obtain c pool where s: "s = (c, pool)" by (cases s)
  from Cons.prems have "set pool \<subseteq> {..<length (workers c)}"
    by (simp add: pool_ok_def s)
  from sched_step_no_error[OF this] obtain s1 where s1: "sched_step td idx s = Inr s1"
    unfolding s by blast
  from pool_ok_step[OF Cons.prems s1] have "pool_ok n s1" .
  from Cons.IH[OF this] show ?case using s1 by simp
qed

section \<open>The completion check\<close>

lemma update_loop_result:
  assumes "update_loop tg j ws n = (ws', n')"
  shows "length ws' = length ws" and "n \<le> n'" and "n' \<le> n + length ws"
proof -
  have "length ws' = length ws \<and> n \<le> n' \<and> n' \<le> n + length ws"
    using assms
  proof (induction ws arbitrary: j n ws' n')
    case Nil
    then show ?case by simp
  next
    case (Cons w ws)
    obtain w1 dn where u: "update (tg j) w = (w1, dn)" by (cases "update (tg j) w")
    obtain ws1 n1 where r: "update_loop tg (Suc j) ws (n + (if dn then 1 else 0)) = (ws1, n1)"
      by (cases "update_loop tg (Suc j) ws (n + (if dn then 1 else 0))")
    from Cons.prems u r have e: "ws' = w1 # ws1" "n' = n1" by simp_all
    from Cons.IH[OF r] show ?case unfolding e by (auto split: if_splits)
  qed
  then show "length ws' = length ws" and "n \<le> n'" and "n' \<le> n + length ws" by blast+
qed

lemma tick_result:
  assumes "workers c \<noteq> []" and "set (shuffled td) \<subseteq> {..<length (workers c)}"
  shows "\<exists>c' k. tick td c = Inr (c', round_double (real k / real (length (workers c))))
           \<and> k \<le> length (workers c) \<and> length (workers c') = length (workers c)"
proof -
  let ?n = "length (workers c)"
  have "pool_ok ?n (c, shuffled td)"
    using assms(2) by (simp add: pool_ok_def)
  from walk_no_error[OF this, of td "[0..<?n]"]
  obtain c1 p1 where w: "walk td [0..<?n] (c, shuffled td) = Inr (c1, p1)"
    and len: "length (workers c1) = ?n"
    by (auto simp: pool_ok_def)
  obtain ws' k where u: "update_loop (target_draws td) 0 (workers c1) 0 = (ws', k)"
    by (cases "update_loop (target_draws td) 0 (workers c1) 0")
  from update_loop_result[OF u] len have "length ws' = ?n" "k \<le> ?n" by simp_all
  moreover have "tick td c = Inr (c1\<lparr>workers := ws'\<rparr>, round_double (real k / real ?n))"
    using w u assms(1) by (simp add: tick_def Let_def)
  ultimately show ?thesis by auto
qed


section \<open>The run\<close>

lemma run_loop_result:
  assumes "workers c \<noteq> []" and "\<forall>t. set (shuffled (rs t)) \<subseteq> {..<length (workers c)}"
  shows "\<exists>rates c'. run_loop rs t k c acc = Inr (acc @ rates, c') \<and> length rates = k
           \<and> (\<forall>x\<in>set rates. \<exists>j. j \<le> length (workers c) \<and> x = round_double (real j / real (length (workers c))))
           \<and> length (workers c') = length (workers c)"
  using assms
proof (induction k arbitrary: t c acc)
  case 0
  then show ?case by simp
next
  case (Suc k)
  from Suc.prems have sh: "set (shuffled (rs t)) \<subseteq> {..<length (workers c)}" by blast
  from tick_result[OF Suc.prems(1) sh]
  obtain c1 j where t1: "tick (rs t) c = Inr (c1, round_double (real j / real (length (workers c))))"
    and j: "j \<le> length (workers c)" and len: "length (workers c1) = length (workers c)"
    by blast
  have ne: "workers c1 \<noteq> []" using Suc.prems(1) len by (metis length_0_conv)
  have sh1: "\<forall>t. set (shuffled (rs t)) \<subseteq> {..<length (workers c1)}"
    using Suc.prems(2) len by simp
  from Suc.IH[OF ne sh1, of "Suc t" "acc @ [round_double (real j / real (length (workers c)))]"]
  obtain rates c' where r: "run_loop rs (Suc t) k c1 (acc @ [round_double (real j / real (length (workers c)))])
        = Inr ((acc @ [round_double (real j / real (length (workers c)))]) @ rates, c')"
    and l: "length rates = k"
    and f: "\<forall>x\<in>set rates. \<exists>j. j \<le> length (workers c1) \<and> x = round_double (real j / real (length (workers c1)))"
    and l': "length (workers c') = length (workers c1)"
    by blast
  let ?rates = "round_double (real j / real (length (workers c))) # rates"
  have "run_loop rs t (Suc k) c acc = Inr (acc @ ?rates, c')"
    using t1 r by simp
  moreover have "length ?rates = Suc k" using l by simp
  moreover have "\<forall>x\<in>set ?rates. \<exists>j. j \<le> length (workers c) \<and> x = round_double (real j / real (length (workers c)))"
    using f j len by auto
  moreover have "length (workers c') = length (workers c)" using l' len by simp
  ultimately show ?case by blast
qed

lemma walk_pool:
  assumes "walk td idxs (c, pool) = Inr (c', pool')"
  shows "set pool' \<subseteq> set pool" and "distinct pool \<Longrightarrow> distinct pool'"
    and "length (workers c') = length (workers c)"
proof -
  let ?P = "\<lambda>s. set (snd s) \<subseteq> set pool \<and> (distinct pool \<longrightarrow> distinct (snd s))
      \<and> length (workers (fst s)) = length (workers c)"
  have "?P (c', pool')"
  proof (rule walk_invariant[OF assms, where P = ?P])
    show "?P (c, pool)" by simp
  next
    fix idx s s'
    assume p: "?P s" and st: "sched_step td idx s = Inr s'"
    obtain c1 p1 c2 p2 where s: "s = (c1, p1)" "s' = (c2, p2)"
      by (cases s, cases s') auto
    from sched_step_pool(1,2)[of td idx c1 p1 c2 p2] sched_step_workers(1)[of td idx c1 p1 c2 p2]
      p st
    show "?P s'" unfolding s by auto
  qed
  then show "set pool' \<subseteq> set pool" and "distinct pool \<Longrightarrow> distinct pool'"
    and "length (workers c') = length (workers c)" by simp_all
qed

lemma walk_removes_walked:
  assumes "walk td idxs (c, pool) = Inr (c', pool')" and "distinct pool" and "j \<in> set idxs"
  shows "j \<notin> set pool'"
  using assms
proof (induction idxs arbitrary: c pool)
  case Nil
  then show ?case by simp
next
  case (Cons idx idxs)
  from Cons.prems(1) obtain c1 p1 where s1: "sched_step td idx (c, pool) = Inr (c1, p1)"
    and w: "walk td idxs (c1, p1) = Inr (c', pool')"
    by (auto split: sum.splits)
  have d1: "distinct p1" using sched_step_pool(2)[OF s1] Cons.prems(2) by simp
  show ?case
  proof (cases "j = idx")
    case True
    from sched_step_pool(3)[OF s1 Cons.prems(2)] have "idx \<notin> set p1" .
    with walk_pool(1)[OF w] True show ?thesis by auto
  next
    case False
    with Cons.prems(3) have "j \<in> set idxs" by simp
    from Cons.IH[OF w d1 this] show ?thesis .
  qed
qed

section \<open>Action selection, the run and construction\<close>

text \<open>
  Claim C1. \<open>DatabaseResearcher.act\<close> forgets, then compares its one draw \<open>r\<close> with the
  thresholds in a fixed order: it asks a colleague when the pool is non-empty and \<open>r\<close> is
  below the socialise threshold; else it queries the store when \<open>r\<close> is below the query
  threshold; else it writes to the store when it knows something and \<open>r\<close> is below the
  write threshold; else it researches. With an empty pool it never asks and never fails.
  The thresholds are the cumulative sums of the configured rates, as float addition
  gives them.
\<close>

theorem DatabaseResearcher_act_priority:
  assumes "i < length (workers c)" and "cls (workers c ! i) = DatabaseResearcher"
  shows "let w = workers c ! i; c1 = upd_worker i (forget d) c; r = d_action d in
    (pool \<noteq> [] \<and> r < socialise_threshold w
       \<longrightarrow> act d i c pool = ask_colleague d i c1 pool) \<and>
    (\<not> (pool \<noteq> [] \<and> r < socialise_threshold w) \<and> r < database_query_threshold w
       \<longrightarrow> act d i c pool = Inr (query_database i c1, pool)) \<and>
    (\<not> (pool \<noteq> [] \<and> r < socialise_threshold w) \<and> \<not> r < database_query_threshold w
        \<and> known_facts (forget d w) \<noteq> [] \<and> r < database_write_threshold w
       \<longrightarrow> (\<exists>c2. write_to_database d i c1 = Inr c2 \<and> act d i c pool = Inr (c2, pool))) \<and>
    (\<not> (pool \<noteq> [] \<and> r < socialise_threshold w) \<and> \<not> r < database_query_threshold w
        \<and> \<not> (known_facts (forget d w) \<noteq> [] \<and> r < database_write_threshold w)
       \<longrightarrow> act d i c pool = Inr (upd_worker i (do_research d) c1, pool)) \<and>
    (pool = [] \<longrightarrow> (\<exists>c'. act d i c pool = Inr (c', []))) \<and>
    (\<forall>n kf s t1 t2 w'. DatabaseResearcher_init n kf s t1 t2 = Inr w' \<longrightarrow>
       socialise_threshold w' = cfg_socialise_rate s \<and>
       database_query_threshold w' = fadd (cfg_socialise_rate s) (cfg_database_query_rate s) \<and>
       database_write_threshold w' =
         fadd (fadd (cfg_socialise_rate s) (cfg_database_query_rate s))
           (cfg_database_write_rate s))"
proof -
  have "\<forall>n kf s t1 t2 w'. DatabaseResearcher_init n kf s t1 t2 = Inr w' \<longrightarrow>
       socialise_threshold w' = cfg_socialise_rate s \<and>
       database_query_threshold w' = fadd (cfg_socialise_rate s) (cfg_database_query_rate s) \<and>
       database_write_threshold w' =
         fadd (fadd (cfg_socialise_rate s) (cfg_database_query_rate s))
           (cfg_database_write_rate s)"
    by (auto simp: DatabaseResearcher_init_def init_thresholds_def Let_def split: sum.splits)
  then show ?thesis
    using assms
    by (auto simp: act_def DatabaseResearcher_act_def Let_def write_to_database_def)
qed

theorem DatabaseResearcher_act_priority_witness:
  "0 < length (workers ask_cohort) \<and> cls (workers ask_cohort ! 0) = DatabaseResearcher
   \<and> act (example_draws 0 (1 / 20) (1 / 2)) 0 ask_cohort [] = Inr (ask_cohort, [])"
proof -
  have h1: "0 < length (workers ask_cohort)" and h2: "cls (workers ask_cohort ! 0) = DatabaseResearcher"
    by (simp_all add: example_defs)
  from DatabaseResearcher_act_priority[OF h1 h2, where pool = "[]"
      and d = "example_draws 0 (1 / 20) (1 / 2)"]
  have "act (example_draws 0 (1 / 20) (1 / 2)) 0 ask_cohort []
      = Inr (query_database 0 (upd_worker 0 (forget (example_draws 0 (1 / 20) (1 / 2))) ask_cohort), [])"
    by (simp add: Let_def example_defs)
  then show ?thesis using h1 h2
    by (simp add: example_defs query_database_def upd_worker_def forget_def)
qed





text \<open>
  Claim C3, as the code has it. The constructor of \<open>DatabaseResearcher\<close> raises, on the
  assertion of \<open>validate_settings\<close>, exactly when the sum of the three rates as Python
  computes it, \<open>(socialise_rate + database_query_rate) + database_write_rate\<close> with each
  addition rounded to the nearest double, is 1 or more, and returns a worker exactly when
  that sum is below 1; it fails in no other way.
\<close>

theorem construction_rejects_iff_float_sum_ge_1:
  "(DatabaseResearcher_init n kf s t1 t2 = Inl AssertionError
      \<longleftrightarrow> 1 \<le> fadd (fadd (cfg_socialise_rate s) (cfg_database_query_rate s))
                  (cfg_database_write_rate s))
   \<and> ((\<exists>w. DatabaseResearcher_init n kf s t1 t2 = Inr w)
      \<longleftrightarrow> fadd (fadd (cfg_socialise_rate s) (cfg_database_query_rate s))
            (cfg_database_write_rate s) < 1)
   \<and> (\<forall>e. DatabaseResearcher_init n kf s t1 t2 = Inl e \<longrightarrow> e = AssertionError)"
  by (auto simp: DatabaseResearcher_init_def validate_settings_def Let_def split: sum.splits if_splits)

theorem construction_rejects_iff_float_sum_ge_1_witness:
  "DatabaseResearcher_init 100 [] (example_settings (1 / 2) (1 / 4) (1 / 4)) 7 8 = Inl AssertionError
   \<and> (\<exists>w. DatabaseResearcher_init 100 [] (example_settings (1 / 8) (1 / 8) (1 / 16)) 7 8 = Inr w)"
proof -
  have "fadd (fadd (1 / 2) (1 / 4)) (1 / 4) = 1" and "fadd (fadd (1 / 8) (1 / 8)) (1 / 16) = 5 / 16"
    by (simp_all add: float_defs)
  with construction_rejects_iff_float_sum_ge_1
          [of 100 "[]" "example_settings (1 / 2) (1 / 4) (1 / 4)" 7 8]
        construction_rejects_iff_float_sum_ge_1
          [of 100 "[]" "example_settings (1 / 8) (1 / 8) (1 / 16)" 7 8]
  show ?thesis by (simp add: example_settings_def)
qed

text \<open>
  Claim C3, as stated, fails: the doubles 0.5, 0.49999999999999994 (that is
  \<open>1/2 - 2\<^sup>-\<^sup>5\<^sup>4\<close>) and 0.0 sum to less than 1, yet their float sum is 1.0 and the
  constructor raises.
\<close>

theorem construction_rejects_sum_below_1:
  "is_double (1 / 2) \<and> is_double (9007199254740991 / 18014398509481984) \<and> is_double 0
   \<and> (1 / 2 + 9007199254740991 / 18014398509481984 + 0 :: real) < 1
   \<and> DatabaseResearcher_init 100 []
        (example_settings (1 / 2) (9007199254740991 / 18014398509481984) 0) 7 8
       = Inl AssertionError"
proof -
  have "fadd (fadd (1 / 2) (9007199254740991 / 18014398509481984)) 0 = 1"
    by (simp add: float_defs)
  moreover have "is_double (1 / 2)" "is_double (9007199254740991 / 18014398509481984)" "is_double 0"
    by (simp_all add: float_defs)
  ultimately show ?thesis
    by (simp add: DatabaseResearcher_init_def validate_settings_def example_settings_def)
qed

section \<open>The free-resource pool\<close>

text \<open>
  Claim C4. In the walk of one tick, started on the shuffled pool: the pool never holds
  an index twice and only shrinks, and the indices already walked have all left it. At
  step \<open>k\<close> the indices removed are exactly these: none when \<open>k\<close> is no longer in the
  pool (worker \<open>k\<close> does not act); \<open>k\<close> alone when worker \<open>k\<close> acts without asking;
  \<open>k\<close> and the colleague chosen, another index of the pool, when worker \<open>k\<close> acts by
  asking. What a later step finds in the pool is within what step \<open>k\<close> left, so the
  indices removed at two steps of a tick are disjoint: no index is removed twice and no
  two workers consume the same index.
\<close>

theorem pool_index_removed_once:
  assumes perm: "mset (shuffled td) = mset [0..<length (workers c)]"
    and prefix: "walk td [0..<k] (c, shuffled td) = Inr (ck, pk)"
    and step: "sched_step td k (ck, pk) = Inr (ck', pk')"
  shows "distinct pk \<and> distinct pk'
    \<and> set pk' \<subseteq> set pk \<and> set pk \<subseteq> {..<length (workers c)}
    \<and> (\<forall>j<k. j \<notin> set pk)
    \<and> k \<notin> set pk'
    \<and> (k \<notin> set pk \<longrightarrow> pk' = pk \<and> ck' = ck)
    \<and> (k \<in> set pk \<longrightarrow> act (act_draws td k) k ck (remove1 k pk) = Inr (ck', pk'))
    \<and> (k \<in> set pk \<and> asks (act_draws td k) (workers ck ! k) (remove1 k pk) \<longrightarrow>
          ask_colleague (act_draws td k) k (upd_worker k (forget (act_draws td k)) ck)
            (remove1 k pk) = Inr (ck', pk')
          \<and> choice (d_choice (act_draws td k)) (remove1 k pk) \<in> set pk
          \<and> choice (d_choice (act_draws td k)) (remove1 k pk) \<noteq> k
          \<and> choice (d_choice (act_draws td k)) (remove1 k pk) \<notin> set pk'
          \<and> pk' = remove1 (choice (d_choice (act_draws td k)) (remove1 k pk)) (remove1 k pk)
          \<and> set pk - set pk' = {k, choice (d_choice (act_draws td k)) (remove1 k pk)})
    \<and> (k \<in> set pk \<and> \<not> asks (act_draws td k) (workers ck ! k) (remove1 k pk) \<longrightarrow>
          pk' = remove1 k pk \<and> set pk - set pk' = {k})
    \<and> (\<forall>k2 c2 p2 c2' p2'.
          k < k2 \<and> walk td [0..<k2] (c, shuffled td) = Inr (c2, p2)
            \<and> sched_step td k2 (c2, p2) = Inr (c2', p2')
          \<longrightarrow> set p2 \<subseteq> set pk' \<and> (set pk - set pk') \<inter> (set p2 - set p2') = {})"
proof -
  let ?d = "act_draws td k"
  let ?p1 = "remove1 k pk"
  let ?ch = "choice (d_choice ?d) ?p1"
  have d0: "distinct (shuffled td)"
    using perm by (metis distinct_upt mset_eq_imp_distinct_iff)
  have s0: "set (shuffled td) = {..<length (workers c)}"
    using perm by (metis atLeast_upt mset_eq_setD)
  have dk: "distinct pk" using walk_pool(2)[OF prefix] d0 by simp
  have dk': "distinct pk'" using sched_step_pool(2)[OF step] dk by simp
  have d1: "distinct ?p1" using dk by simp
  have s1: "set ?p1 = set pk - {k}" using dk by simp
  have a1: "distinct pk \<and> distinct pk'" using dk dk' by simp
  have a2: "set pk' \<subseteq> set pk \<and> set pk \<subseteq> {..<length (workers c)}"
    using sched_step_pool(1)[OF step] walk_pool(1)[OF prefix] s0 by simp
  have a3: "\<forall>j<k. j \<notin> set pk"
    using walk_removes_walked[OF prefix d0] by simp
  have a4: "k \<notin> set pk'" using sched_step_pool(3)[OF step dk] .
  have a5: "k \<notin> set pk \<longrightarrow> pk' = pk \<and> ck' = ck"
    using step by (auto simp: sched_step_def)
  have klen: "k \<in> set pk \<Longrightarrow> k < length (workers ck)"
    using a2 walk_pool(3)[OF prefix] by auto
  have act: "k \<in> set pk \<Longrightarrow> act ?d k ck ?p1 = Inr (ck', pk')"
    using step klen by (simp add: sched_step_def)
  then have a6: "k \<in> set pk \<longrightarrow> act ?d k ck ?p1 = Inr (ck', pk')" by blast
  have a7: "k \<in> set pk \<and> asks ?d (workers ck ! k) ?p1 \<longrightarrow>
          ask_colleague ?d k (upd_worker k (forget ?d) ck) ?p1 = Inr (ck', pk')
          \<and> ?ch \<in> set pk \<and> ?ch \<noteq> k \<and> ?ch \<notin> set pk'
          \<and> pk' = remove1 ?ch ?p1 \<and> set pk - set pk' = {k, ?ch}"
  proof
    assume h: "k \<in> set pk \<and> asks ?d (workers ck ! k) ?p1"
    then have kin: "k \<in> set pk" and asks: "asks ?d (workers ck ! k) ?p1" by simp_all
    have ask: "ask_colleague ?d k (upd_worker k (forget ?d) ck) ?p1 = Inr (ck', pk')"
      using act_asks[OF klen[OF kin] asks] act[OF kin] by simp
    from ask_colleague_result(1,2)[OF ask]
    have ne: "?p1 \<noteq> []" and p': "pk' = remove1 ?ch ?p1" by simp_all
    from ne have "?ch \<in> set ?p1" by (simp add: choice_def)
    then have ch: "?ch \<in> set pk" "?ch \<noteq> k" using s1 by auto
    have sp': "set pk' = set pk - {k, ?ch}" using p' d1 s1 by auto
    then have "?ch \<notin> set pk'" by simp
    moreover have "set pk - set pk' = {k, ?ch}" using sp' kin ch(1) by auto
    ultimately show "ask_colleague ?d k (upd_worker k (forget ?d) ck) ?p1 = Inr (ck', pk')
          \<and> ?ch \<in> set pk \<and> ?ch \<noteq> k \<and> ?ch \<notin> set pk'
          \<and> pk' = remove1 ?ch ?p1 \<and> set pk - set pk' = {k, ?ch}"
      using ask ch p' by simp
  qed
  have a8: "k \<in> set pk \<and> \<not> asks ?d (workers ck ! k) ?p1 \<longrightarrow>
          pk' = ?p1 \<and> set pk - set pk' = {k}"
  proof
    assume h: "k \<in> set pk \<and> \<not> asks ?d (workers ck ! k) ?p1"
    then have kin: "k \<in> set pk" and na: "\<not> asks ?d (workers ck ! k) ?p1" by simp_all
    have p': "pk' = ?p1" using act_not_asks[OF klen[OF kin] na act[OF kin]] .
    then have "set pk - set pk' = {k}" using s1 kin by auto
    with p' show "pk' = ?p1 \<and> set pk - set pk' = {k}" by simp
  qed
  have a9: "\<forall>k2 c2 p2 c2' p2'.
          k < k2 \<and> walk td [0..<k2] (c, shuffled td) = Inr (c2, p2)
            \<and> sched_step td k2 (c2, p2) = Inr (c2', p2')
          \<longrightarrow> set p2 \<subseteq> set pk' \<and> (set pk - set pk') \<inter> (set p2 - set p2') = {}"
  proof (intro allI impI)
    fix k2 c2 p2 c2' p2'
    assume h: "k < k2 \<and> walk td [0..<k2] (c, shuffled td) = Inr (c2, p2)
            \<and> sched_step td k2 (c2, p2) = Inr (c2', p2')"
    then have "[0..<k + (k2 - k)] = [0..<k] @ [k..<k + (k2 - k)]"
      by (intro upt_add_eq_append) simp
    moreover have "[k..<k2] = k # [Suc k..<k2]"
      using h by (simp add: upt_conv_Cons)
    ultimately have "[0..<k2] = [0..<k] @ k # [Suc k..<k2]"
      using h by simp
    with h prefix step have "walk td [Suc k..<k2] (ck', pk') = Inr (c2, p2)"
      by (simp add: walk_append)
    from walk_pool(1)[OF this] have sub: "set p2 \<subseteq> set pk'" .
    then have "(set pk - set pk') \<inter> (set p2 - set p2') = {}" by auto
    with sub show "set p2 \<subseteq> set pk' \<and> (set pk - set pk') \<inter> (set p2 - set p2') = {}" ..
  qed
  from a1 a2 a3 a4 a5 a6 a7 a8 a9 show ?thesis by (intro conjI) blast+
qed

theorem pool_index_removed_once_witness:
  "mset (shuffled ask_tick) = mset [0..<length (workers ask_cohort)]
   \<and> walk ask_tick [0..<0] (ask_cohort, shuffled ask_tick) = Inr (ask_cohort, [0, 1])
   \<and> sched_step ask_tick 0 (ask_cohort, [0, 1])
       = Inr (\<lparr>workers = [example_worker 100 [7] 7, example_worker 100 [7] 3], database = []\<rparr>, [])
   \<and> 0 \<in> set [0, 1 :: nat]
   \<and> asks (act_draws ask_tick 0) (workers ask_cohort ! 0) (remove1 0 [0, 1])
   \<and> choice (d_choice (act_draws ask_tick 0)) (remove1 0 [0, 1 :: nat]) = 1
   \<and> set [0, 1 :: nat] - set [] = {0, 1}"
proof -
  have h1: "mset (shuffled ask_tick) = mset [0..<length (workers ask_cohort)]"
    by (simp add: example_defs upt_rec)
  have h2: "walk ask_tick [0..<0] (ask_cohort, shuffled ask_tick) = Inr (ask_cohort, [0, 1])"
    by (simp add: example_defs)
  have h3: "sched_step ask_tick 0 (ask_cohort, [0, 1])
       = Inr (\<lparr>workers = [example_worker 100 [7] 7, example_worker 100 [7] 3], database = []\<rparr>, [])"
    by (simp add: example_defs model_defs)
  have h4: "0 \<in> set [0, 1 :: nat]" by simp
  have h5: "asks (act_draws ask_tick 0) (workers ask_cohort ! 0) (remove1 0 [0, 1])"
    by (simp add: example_defs asks_def)
  have h6: "choice (d_choice (act_draws ask_tick 0)) (remove1 0 [0, 1 :: nat]) = 1"
    by (simp add: example_defs choice_def)
  from pool_index_removed_once[OF h1 h2 h3] h4 h5
  have "set [0, 1 :: nat] - set [] = {0, choice (d_choice (act_draws ask_tick 0)) (remove1 0 [0, 1])}"
    by blast
  then show ?thesis using h1 h2 h3 h5 h6 by simp
qed

text \<open>
  Claim C10. When the scheduler reaches index \<open>k\<close> and finds it in the pool, it calls
  \<open>act\<close> of worker \<open>k\<close> on the pool without \<open>k\<close>; that pool does not hold \<open>k\<close>, so
  whatever \<open>ask_colleague\<close> of worker \<open>k\<close> draws from it is another index, one that
  was still in the pool.
\<close>

theorem asker_never_chooses_itself:
  assumes perm: "mset (shuffled td) = mset [0..<length (workers c)]"
    and prefix: "walk td [0..<k] (c, shuffled td) = Inr (ck, pk)"
    and kin: "k \<in> set pk"
  shows "sched_step td k (ck, pk) = act (act_draws td k) k ck (remove1 k pk)
    \<and> k \<notin> set (remove1 k pk)
    \<and> (\<forall>d c1 c' pool'. ask_colleague d k c1 (remove1 k pk) = Inr (c', pool') \<longrightarrow>
          choice (d_choice d) (remove1 k pk) \<noteq> k
          \<and> choice (d_choice d) (remove1 k pk) \<in> set pk
          \<and> pool' = remove1 (choice (d_choice d) (remove1 k pk)) (remove1 k pk))"
proof -
  have d0: "distinct (shuffled td)"
    using perm by (metis distinct_upt mset_eq_imp_distinct_iff)
  have s0: "set (shuffled td) = {..<length (workers c)}"
    using perm by (metis atLeast_upt mset_eq_setD)
  have dk: "distinct pk" using walk_pool(2)[OF prefix] d0 by simp
  have "k < length (workers c)" using walk_pool(1)[OF prefix] s0 kin by auto
  then have klen: "k < length (workers ck)" using walk_pool(3)[OF prefix] by simp
  have a1: "sched_step td k (ck, pk) = act (act_draws td k) k ck (remove1 k pk)"
    using kin klen by (rule sched_step_acts)
  have a2: "k \<notin> set (remove1 k pk)" using dk by simp
  have a3: "\<forall>d c1 c' pool'. ask_colleague d k c1 (remove1 k pk) = Inr (c', pool') \<longrightarrow>
          choice (d_choice d) (remove1 k pk) \<noteq> k
          \<and> choice (d_choice d) (remove1 k pk) \<in> set pk
          \<and> pool' = remove1 (choice (d_choice d) (remove1 k pk)) (remove1 k pk)"
  proof (intro allI impI)
    fix d c1 c' pool'
    assume a: "ask_colleague d k c1 (remove1 k pk) = Inr (c', pool')"
    let ?ch = "choice (d_choice d) (remove1 k pk)"
    from ask_colleague_result(1,2)[OF a]
    have ne: "remove1 k pk \<noteq> []" and p': "pool' = remove1 ?ch (remove1 k pk)" by simp_all
    from ne have "?ch \<in> set (remove1 k pk)" by (simp add: choice_def)
    then have "?ch \<noteq> k" "?ch \<in> set pk" using dk by auto
    with p' show "?ch \<noteq> k \<and> ?ch \<in> set pk \<and> pool' = remove1 ?ch (remove1 k pk)" by simp
  qed
  from a1 a2 a3 show ?thesis by (intro conjI)
qed

theorem asker_never_chooses_itself_witness:
  "mset (shuffled ask_tick) = mset [0..<length (workers ask_cohort)]
   \<and> walk ask_tick [0..<0] (ask_cohort, shuffled ask_tick) = Inr (ask_cohort, [0, 1])
   \<and> 0 \<in> set [0, 1 :: nat]
   \<and> 0 \<notin> set (remove1 0 [0, 1 :: nat])
   \<and> sched_step ask_tick 0 (ask_cohort, [0, 1]) = act (act_draws ask_tick 0) 0 ask_cohort [1]"
proof -
  have h1: "mset (shuffled ask_tick) = mset [0..<length (workers ask_cohort)]"
    by (simp add: example_defs upt_rec)
  have h2: "walk ask_tick [0..<0] (ask_cohort, shuffled ask_tick) = Inr (ask_cohort, [0, 1])"
    by (simp add: example_defs)
  have h3: "0 \<in> set [0, 1 :: nat]" by simp
  from asker_never_chooses_itself[OF h1 h2 h3] show ?thesis
    using h1 h2 by simp
qed

text \<open>
  Claim C7. A successful \<open>ask_colleague\<close> of worker \<open>i\<close> removes the chosen index from
  the pool and leaves the chosen colleague, every other worker and the database as they
  were; worker \<open>i\<close> is unchanged too, or has gained its own target among its known facts
  (when the colleague knows it), with its target and configuration as before.
\<close>

theorem ask_colleague_frame:
  assumes "ask_colleague d i c pool = Inr (c', pool')" and "i < length (workers c)"
  shows "let ch = choice (d_choice d) pool in
     pool \<noteq> [] \<and> ch \<in> set pool \<and> pool' = remove1 ch pool
     \<and> workers c' ! ch = workers c ! ch
     \<and> database c' = database c
     \<and> length (workers c') = length (workers c)
     \<and> (\<forall>j. j \<noteq> i \<longrightarrow> workers c' ! j = workers c ! j)
     \<and> (workers c' ! i = workers c ! i
        \<or> (\<exists>t. target_fact (workers c ! i) = Some t
              \<and> t \<in> set (known_facts (workers c ! ch))
              \<and> workers c' ! i = (workers c ! i)\<lparr>known_facts := set_add t (known_facts (workers c ! i))\<rparr>))"
proof -
  let ?ch = "choice (d_choice d) pool"
  note r = ask_colleague_result[OF assms(1)]
  have ne: "pool \<noteq> []" by (rule r(1))
  then have chin: "?ch \<in> set pool" by (simp add: choice_def)
  have self: "workers c' ! i = workers c ! i
        \<or> (\<exists>t. target_fact (workers c ! i) = Some t
              \<and> t \<in> set (known_facts (workers c ! ?ch))
              \<and> workers c' ! i = (workers c ! i)\<lparr>known_facts := set_add t (known_facts (workers c ! i))\<rparr>)"
    using r(7) assms(2) by auto
  have coll: "workers c' ! ?ch = workers c ! ?ch"
  proof (cases "?ch = i")
    case False
    then show ?thesis using r(6) by simp
  next
    case True
    from self show ?thesis
    proof
      assume "workers c' ! i = workers c ! i" then show ?thesis using True by simp
    next
      assume "\<exists>t. target_fact (workers c ! i) = Some t
              \<and> t \<in> set (known_facts (workers c ! ?ch))
              \<and> workers c' ! i = (workers c ! i)\<lparr>known_facts := set_add t (known_facts (workers c ! i))\<rparr>"
      then obtain t where "t \<in> set (known_facts (workers c ! i))"
        and "workers c' ! i = (workers c ! i)\<lparr>known_facts := set_add t (known_facts (workers c ! i))\<rparr>"
        using True by auto
      then show ?thesis using True by (simp add: set_add_def)
    qed
  qed
  show ?thesis
    unfolding Let_def
    using ne chin r(2) coll r(4) r(5) r(6) self by (intro conjI)
qed

theorem ask_colleague_frame_witness:
  "ask_colleague (example_draws 0 (1 / 20) (1 / 2)) 0 ask_cohort [1]
     = Inr (\<lparr>workers = [example_worker 100 [7] 7, example_worker 100 [7] 3], database = []\<rparr>, [])
   \<and> 0 < length (workers ask_cohort)
   \<and> workers \<lparr>workers = [example_worker 100 [7] 7, example_worker 100 [7] 3], database = []\<rparr> ! 1
       = workers ask_cohort ! 1"
proof -
  have h1: "ask_colleague (example_draws 0 (1 / 20) (1 / 2)) 0 ask_cohort [1]
     = Inr (\<lparr>workers = [example_worker 100 [7] 7, example_worker 100 [7] 3], database = []\<rparr>, [])"
    by (simp add: example_defs model_defs)
  have h2: "0 < length (workers ask_cohort)" by (simp add: example_defs)
  from ask_colleague_frame[OF h1 h2] show ?thesis
    using h1 h2 by (simp add: Let_def example_draws_def choice_def)
qed

section \<open>Forgetting\<close>

lemma forget_idle: "\<not> d_forget d < forget_rate w \<Longrightarrow> forget d w = w"
  by (simp add: forget_def)

lemma upd_worker_same: "f (workers c ! i) = workers c ! i \<Longrightarrow> upd_worker i f c = c"
  by (simp add: upd_worker_def)

lemma forget_removes_one:
  assumes "known_facts w \<noteq> []" and "d_forget d < forget_rate w"
  shows "\<exists>x\<in>set (known_facts w). set (known_facts (forget d w)) = set (known_facts w) - {x}"
proof -
  let ?x = "choice (d_pop d) (known_facts w)"
  have "?x \<in> set (known_facts w)" using assms(1) by (simp add: choice_def)
  moreover have "set (known_facts (forget d w)) = set (known_facts w) - {?x}"
    using assms by (simp add: forget_def)
  ultimately show ?thesis by blast
qed

lemma act_forget_first:
  assumes "i < length (workers c)"
  shows "act d i c pool =
     act (d\<lparr>d_forget := forget_rate (workers c ! i)\<rparr>) i (upd_worker i (forget d) c) pool"
proof -
  let ?d = "d\<lparr>d_forget := forget_rate (workers c ! i)\<rparr>"
  let ?c1 = "upd_worker i (forget d) c"
  have w1: "workers ?c1 ! i = forget d (workers c ! i)" using assms by simp
  have "forget ?d (workers ?c1 ! i) = workers ?c1 ! i"
    using assms by (intro forget_idle) simp
  then have idle: "upd_worker i (forget ?d) ?c1 = ?c1" by (rule upd_worker_same)
  have r: "do_research ?d = do_research d" by (simp add: do_research_def Let_def fun_eq_iff)
  have a: "ask_colleague ?d = ask_colleague d" by (simp add: ask_colleague_def Let_def fun_eq_iff)
  have wr: "write_to_database ?d = write_to_database d"
    by (simp add: write_to_database_def Let_def fun_eq_iff)
  have cls1: "cls (workers ?c1 ! i) = cls (workers c ! i)" using assms by simp
  have lhs: "act d i c pool = (case cls (workers c ! i) of
        ForgetfulResearcher_v2 \<Rightarrow> Inr (upd_worker i (do_research d) ?c1, pool)
      | SociableResearcer_v2 \<Rightarrow>
          (if pool \<noteq> [] \<and> d_action d < socialise_rate (workers ?c1 ! i)
           then ask_colleague d i ?c1 pool
           else Inr (upd_worker i (do_research d) ?c1, pool))
      | DatabaseResearcher \<Rightarrow> DatabaseResearcher_act d i c pool)"
    by (simp add: act_def ForgetfulResearcher_v2_act_def SociableResearcer_v2_act_def Let_def
        del: workers_upd_worker split: worker_class.splits)
  have rhs: "act ?d i ?c1 pool = (case cls (workers c ! i) of
        ForgetfulResearcher_v2 \<Rightarrow> Inr (upd_worker i (do_research d) ?c1, pool)
      | SociableResearcer_v2 \<Rightarrow>
          (if pool \<noteq> [] \<and> d_action d < socialise_rate (workers ?c1 ! i)
           then ask_colleague d i ?c1 pool
           else Inr (upd_worker i (do_research d) ?c1, pool))
      | DatabaseResearcher \<Rightarrow> DatabaseResearcher_act ?d i ?c1 pool)"
    unfolding act_def cls1
    by (simp add: ForgetfulResearcher_v2_act_def SociableResearcer_v2_act_def Let_def idle r a
        del: workers_upd_worker split: worker_class.splits)
  have db: "DatabaseResearcher_act ?d i ?c1 pool = DatabaseResearcher_act d i c pool"
    unfolding DatabaseResearcher_act_def idle r a wr by simp
  show ?thesis unfolding lhs rhs db ..
qed

text \<open>
  Claim C6, as the code has it. Forgetting is the first statement of \<open>act\<close>: a worker
  that acts in a tick forgets first, whatever it does next (its \<open>act\<close> is its \<open>act\<close>
  with a forgetting draw that fails, run on the cohort in which it has already
  forgotten). The forgetting step removes one known fact when the worker knows something
  and the draw is below \<open>forget_rate\<close>, and changes nothing otherwise. A worker whose
  index is no longer in the pool, because a colleague has consumed it, is skipped: it
  does not act and it does not forget in that tick.
\<close>

theorem forgetting_precedes_every_action:
  assumes "i < length (workers c)"
  shows "(i \<in> set pool \<longrightarrow>
            sched_step td i (c, pool) = act (act_draws td i) i c (remove1 i pool))
    \<and> act d i c pool' =
        act (d\<lparr>d_forget := forget_rate (workers c ! i)\<rparr>) i (upd_worker i (forget d) c) pool'
    \<and> (known_facts (workers c ! i) \<noteq> [] \<and> d_forget d < forget_rate (workers c ! i) \<longrightarrow>
          (\<exists>x\<in>set (known_facts (workers c ! i)).
             set (known_facts (forget d (workers c ! i))) = set (known_facts (workers c ! i)) - {x}))
    \<and> (\<not> (known_facts (workers c ! i) \<noteq> [] \<and> d_forget d < forget_rate (workers c ! i)) \<longrightarrow>
          forget d (workers c ! i) = workers c ! i)
    \<and> (i \<notin> set pool \<longrightarrow> sched_step td i (c, pool) = Inr (c, pool))"
proof -
  have a1: "i \<in> set pool \<longrightarrow>
            sched_step td i (c, pool) = act (act_draws td i) i c (remove1 i pool)"
    using assms by (simp add: sched_step_acts)
  have a2: "act d i c pool' =
        act (d\<lparr>d_forget := forget_rate (workers c ! i)\<rparr>) i (upd_worker i (forget d) c) pool'"
    using assms by (rule act_forget_first)
  have a3: "known_facts (workers c ! i) \<noteq> [] \<and> d_forget d < forget_rate (workers c ! i) \<longrightarrow>
          (\<exists>x\<in>set (known_facts (workers c ! i)).
             set (known_facts (forget d (workers c ! i))) = set (known_facts (workers c ! i)) - {x})"
    using forget_removes_one by blast
  have a4: "\<not> (known_facts (workers c ! i) \<noteq> [] \<and> d_forget d < forget_rate (workers c ! i)) \<longrightarrow>
          forget d (workers c ! i) = workers c ! i"
    by (auto simp: forget_def)
  have a5: "i \<notin> set pool \<longrightarrow> sched_step td i (c, pool) = Inr (c, pool)"
    by (simp add: sched_step_skip)
  from a1 a2 a3 a4 a5 show ?thesis by (intro conjI)
qed

theorem forgetting_precedes_every_action_witness:
  "1 < length (workers ask_cohort)
   \<and> sched_step ask_tick 1 (ask_cohort, [0]) = Inr (ask_cohort, [0])
   \<and> act (example_draws 0 (9 / 10) (1 / 2)) 1 ask_cohort [] =
       act (example_draws (1 / 2) (9 / 10) (1 / 2)) 1
         (ask_cohort\<lparr>workers := [example_worker 100 [] 7, example_worker 100 [] 3]\<rparr>) []"
proof -
  have h: "1 < length (workers ask_cohort)" by (simp add: example_defs)
  from forgetting_precedes_every_action[OF h, where pool = "[0]" and td = ask_tick
      and d = "example_draws 0 (9 / 10) (1 / 2)" and pool' = "[]"]
  show ?thesis using h
    by (simp add: example_defs upd_worker_def forget_def choice_def)
qed

text \<open>
  Claim C6, as stated, fails for a worker consumed as a colleague. Worker 0 asks worker 1;
  worker 1 knows fact 7 and its forgetting draw is below its \<open>forget_rate\<close>, so that its
  forgetting step would leave it with no fact, yet after the tick it still knows fact 7.
\<close>

theorem consumed_colleague_does_not_forget:
  "tick ask_tick ask_cohort =
     Inr (\<lparr>workers = [example_worker 100 [7] 5, example_worker 100 [7] 3], database = []\<rparr>, 1 / 2)
   \<and> workers ask_cohort ! 1 = example_worker 100 [7] 3
   \<and> d_forget (act_draws ask_tick 1) < forget_rate (workers ask_cohort ! 1)
   \<and> known_facts (forget (act_draws ask_tick 1) (workers ask_cohort ! 1)) = []"
  by (simp add: example_defs model_defs upt_rec)

section \<open>Invariants of a tick and of a run\<close>

lemma update_keeps:
  "same_config w (fst (update k w))" "known_facts (fst (update k w)) = known_facts w"
  by (simp_all add: update_def generate_new_target_fact_def)

lemma update_loop_nth:
  assumes "update_loop tg j ws n = (ws', n')" and "i < length ws"
  shows "ws' ! i = fst (update (tg (j + i)) (ws ! i))"
  using assms
proof (induction ws arbitrary: j n ws' n' i)
  case Nil
  then show ?case by simp
next
  case (Cons w ws)
  obtain w1 dn where u: "update (tg j) w = (w1, dn)" by (cases "update (tg j) w")
  obtain ws1 n1 where r: "update_loop tg (Suc j) ws (n + (if dn then 1 else 0)) = (ws1, n1)"
    by (cases "update_loop tg (Suc j) ws (n + (if dn then 1 else 0))")
  from Cons.prems(1) u r have e: "ws' = w1 # ws1" by simp
  show ?case
  proof (cases i)
    case 0
    then show ?thesis using e u by simp
  next
    case (Suc i')
    with Cons.prems(2) have "i' < length ws" by simp
    from Cons.IH[OF r this] show ?thesis using e Suc by simp
  qed
qed

lemma tick_invariant:
  assumes "tick td c = Inr (c', r)" and "P c"
    and step: "\<And>idx c pool c' pool'. P c \<Longrightarrow> sched_step td idx (c, pool) = Inr (c', pool') \<Longrightarrow> P c'"
    and upd: "\<And>c ws' n. P c \<Longrightarrow> update_loop (target_draws td) 0 (workers c) 0 = (ws', n)
                \<Longrightarrow> P (c\<lparr>workers := ws'\<rparr>)"
  shows "P c'"
proof -
  from assms(1) obtain c1 p1 ws' n where
    w: "walk td [0..<length (workers c)] (c, shuffled td) = Inr (c1, p1)"
    and u: "update_loop (target_draws td) 0 (workers c1) 0 = (ws', n)"
    and c': "c' = c1\<lparr>workers := ws'\<rparr>"
    by (auto simp: tick_def Let_def split: sum.splits prod.splits if_splits)
  have "(P \<circ> fst) (c1, p1)"
  proof (rule walk_invariant[OF w])
    show "(P \<circ> fst) (c, shuffled td)" using assms(2) by simp
  next
    fix idx s s'
    assume "(P \<circ> fst) s" and "sched_step td idx s = Inr s'"
    then show "(P \<circ> fst) s'"
      using step[of "fst s" idx "snd s" "fst s'" "snd s'"] by simp
  qed
  then have "P c1" by simp
  from upd[OF this u] show ?thesis unfolding c' .
qed

lemma run_loop_invariant:
  assumes "run_loop rs t k c acc = Inr (rates, c')" and "P c"
    and "\<And>t c c' r. P c \<Longrightarrow> tick (rs t) c = Inr (c', r) \<Longrightarrow> P c'"
  shows "P c'"
  using assms(1,2)
proof (induction k arbitrary: t c acc)
  case 0
  then show ?case by simp
next
  case (Suc k)
  from Suc.prems(1) obtain c1 r where t1: "tick (rs t) c = Inr (c1, r)"
    and rl: "run_loop rs (Suc t) k c1 (acc @ [r]) = Inr (rates, c')"
    by (auto split: sum.splits)
  from assms(3)[OF Suc.prems(2) t1] have "P c1" .
  from Suc.IH[OF rl this] show ?case .
qed

section \<open>The database under a zero contribution rate\<close>

lemma write_to_database_fails_silently:
  assumes "contribution_success_rate (workers c ! i) \<le> d_write d"
    and "known_facts (workers c ! i) \<noteq> []"
  shows "write_to_database d i c = Inr c"
  using assms by (simp add: write_to_database_def Let_def)

lemma act_database:
  assumes "act d i c pool = Inr (c', pool')" and "i < length (workers c)"
    and "contribution_success_rate (workers c ! i) \<le> d_write d"
  shows "database c' = database c"
proof -
  let ?c1 = "upd_worker i (forget d) c"
  have csr: "\<not> d_write d < contribution_success_rate (workers ?c1 ! i)"
    using assms(2,3) by simp
  have "ask_colleague d i ?c1 pool = Inr (c', pool') \<or> c' = query_database i ?c1
        \<or> write_to_database d i ?c1 = Inr c' \<or> c' = upd_worker i (do_research d) ?c1"
    using assms(1)
    by (cases "cls (workers c ! i)")
      (auto simp: act_def ForgetfulResearcher_v2_act_def SociableResearcer_v2_act_def
        DatabaseResearcher_act_def Let_def split: if_splits sum.splits)
  then show ?thesis
  proof (elim disjE)
    assume "ask_colleague d i ?c1 pool = Inr (c', pool')"
    from ask_colleague_result(4)[OF this] show ?thesis by simp
  next
    assume "c' = query_database i ?c1"
    then show ?thesis by (simp add: query_database_def split: option.splits)
  next
    assume "write_to_database d i ?c1 = Inr c'"
    then show ?thesis using csr
      by (auto simp: write_to_database_def Let_def split: if_splits)
  next
    assume "c' = upd_worker i (do_research d) ?c1"
    then show ?thesis by simp
  qed
qed

lemma never_contributes_step:
  assumes "never_contributes db c" and "sched_step td idx (c, pool) = Inr (c', pool')"
    and "0 \<le> d_write (act_draws td idx)"
  shows "never_contributes db c'"
proof -
  note w = sched_step_workers[OF assms(2)]
  have cfg: "\<forall>j<length (workers c'). contribution_success_rate (workers c' ! j) = 0"
    using assms(1) w(1) w(2) by (simp add: never_contributes_def same_config_def)
  from assms(2) have "database c' = database c"
  proof (cases rule: sched_step_cases)
    case skip
    then show ?thesis by simp
  next
    case acts
    have "contribution_success_rate (workers c ! idx) \<le> d_write (act_draws td idx)"
      using assms(1,3) acts(2) by (simp add: never_contributes_def)
    from act_database[OF acts(3) acts(2) this] show ?thesis .
  qed
  with cfg assms(1) show ?thesis by (simp add: never_contributes_def)
qed

lemma never_contributes_update:
  assumes "never_contributes db c" and "update_loop tg 0 (workers c) 0 = (ws', n)"
  shows "never_contributes db (c\<lparr>workers := ws'\<rparr>)"
proof -
  have len: "length ws' = length (workers c)" using update_loop_result(1)[OF assms(2)] .
  have "\<forall>j<length ws'. contribution_success_rate (ws' ! j) = 0"
  proof (intro allI impI)
    fix j assume "j < length ws'"
    then have j: "j < length (workers c)" using len by simp
    have e: "ws' ! j = fst (update (tg (0 + j)) (workers c ! j))"
      using assms(2) j by (rule update_loop_nth)
    have "same_config (workers c ! j) (ws' ! j)"
      unfolding e by (rule update_keeps(1))
    then have "contribution_success_rate (ws' ! j) = contribution_success_rate (workers c ! j)"
      unfolding same_config_def by blast
    then show "contribution_success_rate (ws' ! j) = 0"
      using assms(1) j by (simp add: never_contributes_def)
  qed
  then show ?thesis using assms(1) by (simp add: never_contributes_def)
qed

lemma never_contributes_run:
  assumes "never_contributes db c" and "\<forall>t i. 0 \<le> d_write (act_draws (rs t) i)"
    and "run_loop rs t k c acc = Inr (rates, c')"
  shows "never_contributes db c'"
proof (rule run_loop_invariant[OF assms(3), where P = "never_contributes db"])
  show "never_contributes db c" by (rule assms(1))
next
  fix t c c' r
  assume p: "never_contributes db c" and t: "tick (rs t) c = Inr (c', r)"
  show "never_contributes db c'"
  proof (rule tick_invariant[OF t, where P = "never_contributes db"])
    show "never_contributes db c" by (rule p)
  next
    fix idx c pool c' pool'
    assume "never_contributes db c" and "sched_step (rs t) idx (c, pool) = Inr (c', pool')"
    moreover have "0 \<le> d_write (act_draws (rs t) idx)" using assms(2) by blast
    ultimately show "never_contributes db c'" by (rule never_contributes_step)
  next
    fix c ws' n
    assume "never_contributes db c" and "update_loop (target_draws (rs t)) 0 (workers c) 0 = (ws', n)"
    then show "never_contributes db (c\<lparr>workers := ws'\<rparr>)" by (rule never_contributes_update)
  qed
qed

text \<open>
  Claim C9. In a cohort whose workers all have \<open>contribution_success_rate = 0\<close>, a run
  leaves the store as it was (empty, when it started empty), whatever the number of ticks
  and of write attempts: the success draw of a write, a value of \<open>random.random()\<close>, is
  never below 0, so each attempt returns without error and without touching the store.
  The rate itself is never changed by a run, and the run does return.
\<close>

theorem zero_contribution_rate_keeps_store:
  assumes "\<forall>w\<in>set (workers c). contribution_success_rate w = 0"
    and "\<forall>t i. 0 \<le> d_write (act_draws (rs t) i)"
  shows "(\<forall>rates c'. run_experiment_v2 rs c n_steps = Inr (rates, c') \<longrightarrow>
            database c' = database c
            \<and> (\<forall>w\<in>set (workers c'). contribution_success_rate w = 0))
    \<and> (workers c \<noteq> [] \<and> (\<forall>t. mset (shuffled (rs t)) = mset [0..<length (workers c)]) \<longrightarrow>
          (\<exists>rates c'. run_experiment_v2 rs c n_steps = Inr (rates, c')
             \<and> database c' = database c))
    \<and> (\<forall>d i c0. contribution_success_rate (workers c0 ! i) = 0 \<and> 0 \<le> d_write d
            \<and> known_facts (workers c0 ! i) \<noteq> [] \<longrightarrow> write_to_database d i c0 = Inr c0)"
proof -
  have nc: "never_contributes (database c) c"
    using assms(1) by (simp add: never_contributes_def)
  have a1: "\<forall>rates c'. run_experiment_v2 rs c n_steps = Inr (rates, c') \<longrightarrow>
            database c' = database c
            \<and> (\<forall>w\<in>set (workers c'). contribution_success_rate w = 0)"
  proof (intro allI impI)
    fix rates c'
    assume "run_experiment_v2 rs c n_steps = Inr (rates, c')"
    then have "run_loop rs 0 (nat n_steps) c [] = Inr (rates, c')"
      by (simp add: run_experiment_v2_def)
    from never_contributes_run[OF nc assms(2) this]
    show "database c' = database c \<and> (\<forall>w\<in>set (workers c'). contribution_success_rate w = 0)"
      by (simp add: never_contributes_def all_set_conv_all_nth)
  qed
  have a2: "workers c \<noteq> [] \<and> (\<forall>t. mset (shuffled (rs t)) = mset [0..<length (workers c)]) \<longrightarrow>
          (\<exists>rates c'. run_experiment_v2 rs c n_steps = Inr (rates, c')
             \<and> database c' = database c)"
  proof
    assume h: "workers c \<noteq> [] \<and> (\<forall>t. mset (shuffled (rs t)) = mset [0..<length (workers c)])"
    have sh: "\<forall>t. set (shuffled (rs t)) \<subseteq> {..<length (workers c)}"
    proof
      fix t
      from h have "set (shuffled (rs t)) = set [0..<length (workers c)]"
        by (metis mset_eq_setD)
      then show "set (shuffled (rs t)) \<subseteq> {..<length (workers c)}" by auto
    qed
    from h have ne: "workers c \<noteq> []" by simp
    from run_loop_result[OF ne sh, of 0 "nat n_steps" "[]"]
    obtain rates c' where "run_experiment_v2 rs c n_steps = Inr (rates, c')"
      by (auto simp: run_experiment_v2_def)
    with a1 show "\<exists>rates c'. run_experiment_v2 rs c n_steps = Inr (rates, c')
             \<and> database c' = database c" by blast
  qed
  have a3: "\<forall>d i c0. contribution_success_rate (workers c0 ! i) = 0 \<and> 0 \<le> d_write d
            \<and> known_facts (workers c0 ! i) \<noteq> [] \<longrightarrow> write_to_database d i c0 = Inr c0"
    by (simp add: write_to_database_fails_silently)
  from a1 a2 a3 show ?thesis by (intro conjI)
qed

theorem zero_contribution_rate_keeps_store_witness:
  "write_to_database (act_draws write_tick 0) 0 silent_cohort = Inr silent_cohort
   \<and> act (act_draws write_tick 0) 0 silent_cohort [] = Inr (silent_cohort, [])
   \<and> (\<exists>rates c'. run_experiment_v2 (\<lambda>t. write_tick) silent_cohort 2 = Inr (rates, c')
         \<and> database c' = [])"
proof -
  have h1: "\<forall>w\<in>set (workers silent_cohort). contribution_success_rate w = 0"
    by (simp add: silent_cohort_def)
  have h2: "\<forall>t i. 0 \<le> d_write (act_draws ((\<lambda>t. write_tick) t) i)"
    by (simp add: write_tick_def example_draws_def)
  have h3: "workers silent_cohort \<noteq> []" by (simp add: silent_cohort_def)
  have h4: "\<forall>t. mset (shuffled ((\<lambda>t. write_tick) t)) = mset [0..<length (workers silent_cohort)]"
    by (simp add: silent_cohort_def write_tick_def upt_rec)
  have w: "write_to_database (act_draws write_tick 0) 0 silent_cohort = Inr silent_cohort"
    by (simp add: silent_cohort_def write_tick_def example_defs write_to_database_def Let_def)
  have a: "act (act_draws write_tick 0) 0 silent_cohort [] = Inr (silent_cohort, [])"
    by (simp add: silent_cohort_def write_tick_def example_defs model_defs)
  from zero_contribution_rate_keeps_store[OF h1 h2, of 2] h3 h4
  have "\<exists>rates c'. run_experiment_v2 (\<lambda>t. write_tick) silent_cohort 2 = Inr (rates, c')
         \<and> database c' = database silent_cohort"
    by blast
  then show ?thesis using w a by (simp add: silent_cohort_def)
qed


section \<open>Fact spaces\<close>

lemma set_set_add [simp]: "set (set_add x xs) = insert x (set xs)"
  by (auto simp: set_add_def)

lemma research_fact_in_range:
  assumes "0 \<le> x" and "x < 1" and "is_double x" and "0 < n" and "is_double (real_of_int n)"
  shows "0 \<le> py_int (fmul (float_of_int n) x)" and "py_int (fmul (float_of_int n) x) < n"
proof -
  have n: "float_of_int n = real_of_int n" using assms(5) by (rule is_double_float_of_int)
  have pos: "0 < real_of_int n" using assms(4) by simp
  note b = fmul_below[OF pos assms(3,1,2)]
  have e: "py_int (fmul (float_of_int n) x) = \<lfloor>fmul (real_of_int n) x\<rfloor>"
    using b(1) by (simp add: py_int_def n)
  show "0 \<le> py_int (fmul (float_of_int n) x)" unfolding e using b(1) by simp
  show "py_int (fmul (float_of_int n) x) < n" unfolding e using b(2) by (simp add: floor_less_iff)
qed

lemma forget_subset: "set (known_facts (forget d w)) \<subseteq> set (known_facts w)"
  by (auto simp: forget_def)

lemma facts_in_range_upd:
  assumes "facts_in_range N c" and "n_facts (f (workers c ! i)) = N"
    and "set (known_facts (f (workers c ! i))) \<subseteq> {0..<N}"
  shows "facts_in_range N (upd_worker i f c)"
  unfolding facts_in_range_def
proof (intro conjI allI impI)
  fix j assume "j < length (workers (upd_worker i f c))"
  then have j: "j < length (workers c)" by simp
  show "n_facts (workers (upd_worker i f c) ! j) = N"
    using assms(1,2) j by (cases "j = i") (simp_all add: facts_in_range_def)
  show "set (known_facts (workers (upd_worker i f c) ! j)) \<subseteq> {0..<N}"
    using assms(1,3) j by (cases "j = i") (simp_all add: facts_in_range_def)
next
  show "set (database (upd_worker i f c)) \<subseteq> {0..<N}"
    using assms(1) by (simp add: facts_in_range_def)
qed

lemma facts_in_range_add:
  assumes "facts_in_range N c" and "i < length (workers c)" and "0 \<le> t" and "t < N"
  shows "facts_in_range N (upd_worker i (\<lambda>w. w\<lparr>known_facts := set_add t (known_facts w)\<rparr>) c)"
  using assms by (intro facts_in_range_upd) (auto simp: facts_in_range_def)

lemma facts_in_range_database:
  assumes "facts_in_range N c" and "0 \<le> x" and "x < N"
  shows "facts_in_range N (c\<lparr>database := set_add x (database c)\<rparr>)"
  using assms by (simp add: facts_in_range_def)

lemma act_facts_in_range:
  assumes inv: "facts_in_range N c" and a: "act d i c pool = Inr (c', pool')"
    and i: "i < length (workers c)"
    and x: "0 \<le> d_beta d" "d_beta d < 1" "is_double (d_beta d)"
    and N: "0 < N" "is_double (real_of_int N)"
  shows "facts_in_range N c'"
proof -
  let ?c1 = "upd_worker i (forget d) c"
  have nf: "n_facts (workers c ! i) = N" and kf: "set (known_facts (workers c ! i)) \<subseteq> {0..<N}"
    using inv i by (simp_all add: facts_in_range_def)
  have inv1: "facts_in_range N ?c1"
    using inv nf kf forget_subset[of d "workers c ! i"] by (intro facts_in_range_upd) auto
  have i1: "i < length (workers ?c1)" using i by simp
  have nf1: "n_facts (workers ?c1 ! i) = N"
    and kf1: "set (known_facts (workers ?c1 ! i)) \<subseteq> {0..<N}"
    using inv1 i1 unfolding facts_in_range_def by blast+
  have "ask_colleague d i ?c1 pool = Inr (c', pool') \<or> c' = query_database i ?c1
        \<or> write_to_database d i ?c1 = Inr c' \<or> c' = upd_worker i (do_research d) ?c1"
    using a
    by (cases "cls (workers c ! i)")
      (auto simp: act_def ForgetfulResearcher_v2_act_def SociableResearcer_v2_act_def
        DatabaseResearcher_act_def Let_def split: if_splits sum.splits)
  then show ?thesis
  proof (elim disjE)
    assume ask: "ask_colleague d i ?c1 pool = Inr (c', pool')"
    let ?ch = "choice (d_choice d) pool"
    from ask_colleague_result(3)[OF ask] have ch: "?ch < length (workers ?c1)" .
    then have chr: "set (known_facts (workers ?c1 ! ?ch)) \<subseteq> {0..<N}"
      using inv1 unfolding facts_in_range_def by blast
    from ask_colleague_result(7)[OF ask]
    show ?thesis
    proof
      assume "c' = ?c1" then show ?thesis using inv1 by simp
    next
      assume "\<exists>t. target_fact (workers ?c1 ! i) = Some t
              \<and> t \<in> set (known_facts (workers ?c1 ! ?ch))
              \<and> c' = upd_worker i (\<lambda>w. w\<lparr>known_facts := set_add t (known_facts w)\<rparr>) ?c1"
      then obtain t where t: "t \<in> set (known_facts (workers ?c1 ! ?ch))"
        and c': "c' = upd_worker i (\<lambda>w. w\<lparr>known_facts := set_add t (known_facts w)\<rparr>) ?c1"
        by blast
      from t chr have "0 \<le> t" "t < N" by auto
      from facts_in_range_add[OF inv1 i1 this] show ?thesis unfolding c' .
    qed
  next
    assume q: "c' = query_database i ?c1"
    show ?thesis
    proof (cases "target_fact (workers ?c1 ! i)")
      case None
      then show ?thesis using q inv1 by (simp add: query_database_def del: workers_upd_worker)
    next
      case (Some t)
      show ?thesis
      proof (cases "t \<in> set (database ?c1)")
        case True
        then have "0 \<le> t" "t < N" using inv1 unfolding facts_in_range_def by auto
        from facts_in_range_add[OF inv1 i1 this] show ?thesis
          using q Some True by (simp add: query_database_def del: workers_upd_worker)
      next
        case False
        then show ?thesis using q Some inv1
          by (simp add: query_database_def del: workers_upd_worker)
      qed
    qed
  next
    assume w: "write_to_database d i ?c1 = Inr c'"
    let ?kf = "known_facts (workers ?c1 ! i)"
    from w have ne: "?kf \<noteq> []"
      and c': "c' = ?c1 \<or> c' = ?c1\<lparr>database := set_add (choice (d_choice d) ?kf) (database ?c1)\<rparr>"
      by (auto simp: write_to_database_def Let_def simp del: workers_upd_worker split: if_splits)
    have "choice (d_choice d) ?kf \<in> set ?kf"
      using ne by (simp add: choice_def del: workers_upd_worker)
    then have "0 \<le> choice (d_choice d) ?kf" "choice (d_choice d) ?kf < N"
      using kf1 by auto
    from facts_in_range_database[OF inv1 this] c' inv1 show ?thesis by auto
  next
    assume r: "c' = upd_worker i (do_research d) ?c1"
    have "facts_in_range N (upd_worker i (do_research d) ?c1)"
    proof (rule facts_in_range_upd[OF inv1])
      show "n_facts (do_research d (workers ?c1 ! i)) = N" using nf1 by simp
      show "set (known_facts (do_research d (workers ?c1 ! i))) \<subseteq> {0..<N}"
        using kf1 research_fact_in_range[OF x N] nf1
        by (simp add: do_research_def Let_def del: workers_upd_worker)
    qed
    then show ?thesis using r by simp
  qed
qed

lemma facts_in_range_step:
  assumes "facts_in_range N c" and "sched_step td idx (c, pool) = Inr (c', pool')"
    and "0 \<le> d_beta (act_draws td idx)" "d_beta (act_draws td idx) < 1"
      "is_double (d_beta (act_draws td idx))"
    and "0 < N" "is_double (real_of_int N)"
  shows "facts_in_range N c'"
  using assms(2)
proof (cases rule: sched_step_cases)
  case skip
  then show ?thesis using assms(1) by simp
next
  case acts
  from act_facts_in_range[OF assms(1) acts(3) acts(2) assms(3,4,5,6,7)] show ?thesis .
qed

lemma facts_in_range_update:
  assumes "facts_in_range N c" and "update_loop tg 0 (workers c) 0 = (ws', n)"
  shows "facts_in_range N (c\<lparr>workers := ws'\<rparr>)"
proof -
  have len: "length ws' = length (workers c)" using update_loop_result(1)[OF assms(2)] .
  have "\<forall>j<length ws'. n_facts (ws' ! j) = N \<and> set (known_facts (ws' ! j)) \<subseteq> {0..<N}"
  proof (intro allI impI)
    fix j assume "j < length ws'"
    then have j: "j < length (workers c)" using len by simp
    have e: "ws' ! j = fst (update (tg (0 + j)) (workers c ! j))"
      using assms(2) j by (rule update_loop_nth)
    have "same_config (workers c ! j) (ws' ! j)"
      unfolding e by (rule update_keeps(1))
    then have "n_facts (ws' ! j) = n_facts (workers c ! j)"
      unfolding same_config_def by blast
    moreover have "known_facts (ws' ! j) = known_facts (workers c ! j)"
      unfolding e by (rule update_keeps(2))
    ultimately show "n_facts (ws' ! j) = N \<and> set (known_facts (ws' ! j)) \<subseteq> {0..<N}"
      using assms(1) j by (simp add: facts_in_range_def)
  qed
  then show ?thesis using assms(1) by (simp add: facts_in_range_def)
qed

text \<open>
  In a cohort whose workers share one fact space and whose store starts within it, the
  known facts and the store stay within the fact space along a run (the Beta draws being
  doubles of \<open>[0, 1)\<close> and \<open>n_facts\<close> a number that a double holds exactly, as every
  integer below \<open>2\<^sup>5\<^sup>3\<close> is).
\<close>

lemma known_facts_in_range_shared_fact_space:
  assumes "facts_in_range N c" and "0 < N" and "is_double (real_of_int N)"
    and draws: "\<forall>t i. 0 \<le> d_beta (act_draws (rs t) i) \<and> d_beta (act_draws (rs t) i) < 1
                  \<and> is_double (d_beta (act_draws (rs t) i))"
    and run: "run_experiment_v2 rs c n_steps = Inr (rates, c')"
  shows "facts_in_range N c'"
proof -
  from run have rl: "run_loop rs 0 (nat n_steps) c [] = Inr (rates, c')"
    by (simp add: run_experiment_v2_def)
  show ?thesis
  proof (rule run_loop_invariant[OF rl, where P = "facts_in_range N"])
    show "facts_in_range N c" by (rule assms(1))
  next
    fix t c c' r
    assume p: "facts_in_range N c" and t: "tick (rs t) c = Inr (c', r)"
    show "facts_in_range N c'"
    proof (rule tick_invariant[OF t, where P = "facts_in_range N"])
      show "facts_in_range N c" by (rule p)
    next
      fix idx c pool c' pool'
      assume "facts_in_range N c" and "sched_step (rs t) idx (c, pool) = Inr (c', pool')"
      moreover have "0 \<le> d_beta (act_draws (rs t) idx)" "d_beta (act_draws (rs t) idx) < 1"
        "is_double (d_beta (act_draws (rs t) idx))"
        using draws by blast+
      ultimately show "facts_in_range N c'" using assms(2,3) by (rule facts_in_range_step)
    next
      fix c ws' n
      assume "facts_in_range N c" and "update_loop (target_draws (rs t)) 0 (workers c) 0 = (ws', n)"
      then show "facts_in_range N (c\<lparr>workers := ws'\<rparr>)" by (rule facts_in_range_update)
    qed
  qed
qed

section \<open>The research draw and the target draw\<close>

lemma beta_a_bounds: "0 < beta_a" "beta_a < 1"
  by (simp_all add: beta_a_def)

lemma is_double_beta_a: "is_double beta_a" "is_double beta_b"
  by (simp_all add: beta_a_def beta_b_def float_defs)

lemma beta_a_nearest: "\<bar>beta_a - 8 / 10\<bar> \<le> 1 / 2 ^ 54"
  by (simp add: beta_a_def)

lemma beta_cdf_ends: "beta_cdf 0 = 0" "beta_cdf 1 = 1"
  by (simp_all add: beta_cdf_def)

lemma beta_cdf_deriv:
  assumes "0 < x" and "x < 1"
  shows "(beta_cdf has_real_derivative beta_density x) (at x)"
proof -
  have pw: "x powr beta_a = x * x powr (beta_a - 1)"
    using assms(1) by (simp add: powr_diff)
  have "((\<lambda>z. z powr beta_a * (1 + beta_a * (1 - z))) has_real_derivative
          beta_a * x powr (beta_a - 1) * (1 + beta_a * (1 - x)) + x powr beta_a * (- beta_a)) (at x)"
    using assms(1) by (auto intro!: derivative_eq_intros)
  moreover have "beta_a * x powr (beta_a - 1) * (1 + beta_a * (1 - x)) + x powr beta_a * (- beta_a)
      = beta_density x"
    using assms by (simp add: beta_density_def beta_b_def pw algebra_simps)
  ultimately show ?thesis
    by (simp add: beta_cdf_def[abs_def])
qed

lemma scaled_beta_pmf_zero:
  assumes "2 \<le> n"
  shows "1 / real_of_int n < scaled_beta_pmf n 0"
proof -
  let ?x = "1 / real_of_int n"
  have x: "0 < ?x" "?x \<le> 1" "?x < 1" using assms by simp_all
  have "?x powr 1 \<le> ?x powr beta_a"
    using beta_a_bounds x by (intro powr_mono') simp_all
  then have p: "?x \<le> ?x powr beta_a" using x(1) by simp
  have "1 < 1 + beta_a * (1 - ?x)" using beta_a_bounds x(3) by simp
  moreover have "0 < ?x powr beta_a" using x(1) by simp
  ultimately have "?x powr beta_a * 1 < ?x powr beta_a * (1 + beta_a * (1 - ?x))"
    by (intro mult_strict_left_mono)
  with p have "?x < ?x powr beta_a * (1 + beta_a * (1 - ?x))" by simp
  moreover have "scaled_beta_pmf n 0 = beta_cdf ?x"
    using assms by (simp add: scaled_beta_pmf_def beta_cdf_ends)
  ultimately show ?thesis by (simp add: beta_cdf_def)
qed

lemma card_residue:
  assumes "r < N"
  shows "card {k. k < m * N \<and> k mod N = r} = m"
proof -
  have "{k. k < m * N \<and> k mod N = r} = (\<lambda>j. j * N + r) ` {..<m}"
  proof (intro set_eqI iffI)
    fix k assume "k \<in> {k. k < m * N \<and> k mod N = r}"
    then have k: "k < m * N" "k mod N = r" by simp_all
    have "k div N < m" using k(1) assms by (simp add: less_mult_imp_div_less)
    moreover have "k = k div N * N + r" using k(2) by (metis div_mult_mod_eq)
    ultimately show "k \<in> (\<lambda>j. j * N + r) ` {..<m}" by blast
  next
    fix k assume "k \<in> (\<lambda>j. j * N + r) ` {..<m}"
    then obtain j where j: "j < m" "k = j * N + r" by blast
    have "j * N + r < Suc j * N" using assms by simp
    also have "Suc j * N \<le> m * N" using j(1) by (intro mult_le_mono1) simp
    finally have "k < m * N" using j(2) by simp
    moreover have "k mod N = r" using j(2) assms by simp
    ultimately show "k \<in> {k. k < m * N \<and> k mod N = r}" by simp
  qed
  moreover have "inj_on (\<lambda>j. j * N + r) {..<m}"
    using assms by (intro inj_onI) simp
  ultimately show ?thesis by (simp add: card_image)
qed

lemma randint_uniform:
  assumes "lo \<le> v" and "v \<le> hi"
  shows "card {k. k < m * nat (hi - lo + 1) \<and> randint lo hi k = v} = m"
proof -
  let ?N = "nat (hi - lo + 1)"
  have N: "int ?N = hi - lo + 1" using assms by simp
  have r: "nat (v - lo) < ?N" using assms by simp
  have "\<And>k. (randint lo hi k = v) = (k mod ?N = nat (v - lo))"
  proof -
    fix k
    have "int (k mod ?N) = int k mod (hi - lo + 1)" by (simp only: zmod_int N)
    then have "(int k mod (hi - lo + 1) = v - lo) = (k mod ?N = nat (v - lo))"
      using assms by auto
    then show "(randint lo hi k = v) = (k mod ?N = nat (v - lo))"
      by (auto simp: randint_def)
  qed
  then have "{k. k < m * ?N \<and> randint lo hi k = v} = {k. k < m * ?N \<and> k mod ?N = nat (v - lo)}"
    by simp
  then show ?thesis using card_residue[OF r] by simp
qed

lemma randint_range:
  assumes "lo \<le> hi"
  shows "lo \<le> randint lo hi k" and "randint lo hi k \<le> hi"
proof -
  have N: "0 < hi - lo + 1" using assms by simp
  show "lo \<le> randint lo hi k"
    using pos_mod_sign[OF N, of "int k"] by (simp add: randint_def)
  show "randint lo hi k \<le> hi"
    using pos_mod_bound[OF N, of "int k"] by (simp add: randint_def)
qed


text \<open>
  The float product of \<open>do_research\<close> truncates to the exact scaled value or to the next
  integer, and stays below \<open>n\<close>.
\<close>

lemma research_fact_scaled:
  assumes "0 \<le> x" and "x < 1" and "is_double x" and "0 < n" and "n < 2 ^ 53"
  shows "py_int (fmul (float_of_int n) x) = \<lfloor>real_of_int n * x\<rfloor>
       \<or> py_int (fmul (float_of_int n) x) = \<lfloor>real_of_int n * x\<rfloor> + 1"
proof -
  have dn: "is_double (real_of_int n)" using assms(4,5) by (intro is_double_of_int) simp_all
  then have n: "float_of_int n = real_of_int n" by (rule is_double_float_of_int)
  let ?y = "real_of_int n * x"
  have y0: "0 \<le> ?y" using assms(1,4) by simp
  have "?y \<le> real_of_int n * 1" using assms(2,4) by (intro mult_left_mono) simp_all
  moreover have "real_of_int n < real_of_int (2 ^ 53)"
    using assms(5) by (rule iffD2[OF of_int_less_iff])
  ultimately have y1: "?y < 2 ^ 53" by simp
  note b = round_double_floor_bounds[OF y0 y1]
  have nn: "0 \<le> round_double ?y" using y0 by (rule round_double_nonneg)
  have "\<lfloor>?y\<rfloor> \<le> \<lfloor>round_double ?y\<rfloor>" using b(1) by (simp add: le_floor_iff)
  moreover have "\<lfloor>round_double ?y\<rfloor> \<le> \<lfloor>?y\<rfloor> + 1"
  proof -
    have "\<lfloor>round_double ?y\<rfloor> \<le> \<lfloor>real_of_int \<lfloor>?y\<rfloor> + 1\<rfloor>" using b(2) by (rule floor_mono)
    then show ?thesis by simp
  qed
  ultimately have "\<lfloor>round_double ?y\<rfloor> = \<lfloor>?y\<rfloor> \<or> \<lfloor>round_double ?y\<rfloor> = \<lfloor>?y\<rfloor> + 1" by linarith
  then show ?thesis using nn by (simp add: py_int_def fmul_def n)
qed

lemma scaled_floor_interval:
  assumes "0 < n"
  shows "(\<lfloor>real_of_int n * x\<rfloor> = k)
       = (real_of_int k / real_of_int n \<le> x \<and> x < real_of_int (k + 1) / real_of_int n)"
  using assms by (auto simp: floor_eq_iff field_simps)


text \<open>
  Claim C5, as the code has it. The two draws do not come from the same distribution.
  The research draw is the Beta draw scaled to the worker's fact space: the fact found is
  \<open>int(n_facts * x)\<close> for the draw \<open>x\<close> of \<open>random.betavariate(a, b)\<close>, an integer of
  \<open>[0, n_facts)\<close>, namely the exact product truncated or, where the float product
  rounds up to it, the next integer; the exact product truncates to \<open>k\<close> exactly on the
  interval to which the scaled Beta distribution gives its probability of \<open>k\<close>. A search
  target, on initialisation and after a completion, is the value of a separate
  \<open>random.randint\<close> draw, uniform on its range: over a full period of raw draws every
  value of the range is drawn equally often. Under the scaled Beta distribution on any
  range of two or more facts, fact 0 has more than the uniform share.
\<close>

theorem research_draw_scaled_beta_target_draw_uniform:
  assumes "0 \<le> d_beta d" and "d_beta d < 1" and "is_double (d_beta d)"
    and "0 < n_facts w" and "n_facts w < 2 ^ 53"
  shows "known_facts (do_research d w)
           = set_add (py_int (fmul (float_of_int (n_facts w)) (d_beta d))) (known_facts w)
    \<and> 0 \<le> py_int (fmul (float_of_int (n_facts w)) (d_beta d))
    \<and> py_int (fmul (float_of_int (n_facts w)) (d_beta d)) < n_facts w
    \<and> (py_int (fmul (float_of_int (n_facts w)) (d_beta d)) = \<lfloor>real_of_int (n_facts w) * d_beta d\<rfloor>
       \<or> py_int (fmul (float_of_int (n_facts w)) (d_beta d))
           = \<lfloor>real_of_int (n_facts w) * d_beta d\<rfloor> + 1)
    \<and> (\<forall>k. (\<lfloor>real_of_int (n_facts w) * d_beta d\<rfloor> = k)
            = (real_of_int k / real_of_int (n_facts w) \<le> d_beta d
               \<and> d_beta d < real_of_int (k + 1) / real_of_int (n_facts w)))
    \<and> (\<forall>k. 0 \<le> k \<and> k < n_facts w \<longrightarrow>
          scaled_beta_pmf (n_facts w) k
            = beta_cdf (real_of_int (k + 1) / real_of_int (n_facts w))
              - beta_cdf (real_of_int k / real_of_int (n_facts w)))
    \<and> (\<forall>y. 0 < y \<and> y < 1 \<longrightarrow> (beta_cdf has_real_derivative beta_density y) (at y))
    \<and> beta_cdf 0 = 0 \<and> beta_cdf 1 = 1
    \<and> (\<forall>k t1 cl n kf fr.
          target_fact (generate_new_target_fact k w) = Some (randint 0 (n_facts_global - 1) k)
          \<and> target_fact (ForgetfulResearcher_init cl n kf fr t1 k)
              = Some (randint 0 (n_facts_global - 1) k)
          \<and> (target_known w \<longrightarrow>
                update k w = (w\<lparr>target_fact := Some (randint 0 (n_facts_global - 1) k)\<rparr>, True)))
    \<and> (\<forall>m v. 0 \<le> v \<and> v < n_facts_global \<longrightarrow>
          card {k. k < m * nat n_facts_global
                   \<and> target_fact (generate_new_target_fact k w) = Some v} = m)
    \<and> (\<forall>v. target_pmf v
            = (if 0 \<le> v \<and> v < n_facts_global then 1 / real_of_int n_facts_global else 0))
    \<and> (\<forall>n. 2 \<le> n \<longrightarrow> randint_pmf 0 (n - 1) 0 < scaled_beta_pmf n 0)"
proof -
  let ?f = "py_int (fmul (float_of_int (n_facts w)) (d_beta d))"
  have dn: "is_double (real_of_int (n_facts w))"
    using assms(4,5) by (intro is_double_of_int) simp_all
  note r = research_fact_in_range[OF assms(1,2,3,4) dn]
  have a1: "known_facts (do_research d w) = set_add ?f (known_facts w)"
    by (simp add: do_research_def Let_def)
  have a2: "0 \<le> ?f" by (rule r(1))
  have a3: "?f < n_facts w" by (rule r(2))
  have a4: "?f = \<lfloor>real_of_int (n_facts w) * d_beta d\<rfloor>
       \<or> ?f = \<lfloor>real_of_int (n_facts w) * d_beta d\<rfloor> + 1"
    using assms by (rule research_fact_scaled)
  have a5: "\<forall>k. (\<lfloor>real_of_int (n_facts w) * d_beta d\<rfloor> = k)
            = (real_of_int k / real_of_int (n_facts w) \<le> d_beta d
               \<and> d_beta d < real_of_int (k + 1) / real_of_int (n_facts w))"
    using scaled_floor_interval[OF assms(4)] by blast
  have a6: "\<forall>k. 0 \<le> k \<and> k < n_facts w \<longrightarrow>
          scaled_beta_pmf (n_facts w) k
            = beta_cdf (real_of_int (k + 1) / real_of_int (n_facts w))
              - beta_cdf (real_of_int k / real_of_int (n_facts w))"
    by (simp add: scaled_beta_pmf_def)
  have a7: "\<forall>y. 0 < y \<and> y < 1 \<longrightarrow> (beta_cdf has_real_derivative beta_density y) (at y)"
    using beta_cdf_deriv by blast
  have a8: "beta_cdf 0 = 0" and a9: "beta_cdf 1 = 1" by (rule beta_cdf_ends)+
  have a10: "\<forall>k t1 cl n kf fr.
          target_fact (generate_new_target_fact k w) = Some (randint 0 (n_facts_global - 1) k)
          \<and> target_fact (ForgetfulResearcher_init cl n kf fr t1 k)
              = Some (randint 0 (n_facts_global - 1) k)
          \<and> (target_known w \<longrightarrow>
                update k w = (w\<lparr>target_fact := Some (randint 0 (n_facts_global - 1) k)\<rparr>, True))"
    by (simp add: generate_new_target_fact_def ForgetfulResearcher_init_def update_def)
  have a11: "\<forall>m v. 0 \<le> v \<and> v < n_facts_global \<longrightarrow>
          card {k. k < m * nat n_facts_global
                   \<and> target_fact (generate_new_target_fact k w) = Some v} = m"
  proof (intro allI impI)
    fix m v assume v: "0 \<le> v \<and> v < n_facts_global"
    then have "0 \<le> v" "v \<le> n_facts_global - 1" by simp_all
    from randint_uniform[OF this, of m]
    show "card {k. k < m * nat n_facts_global
                   \<and> target_fact (generate_new_target_fact k w) = Some v} = m"
      by (simp add: generate_new_target_fact_def)
  qed
  have a12: "\<forall>v. target_pmf v
            = (if 0 \<le> v \<and> v < n_facts_global then 1 / real_of_int n_facts_global else 0)"
    by (simp add: target_pmf_def randint_pmf_def)
  have a13: "\<forall>n. 2 \<le> n \<longrightarrow> randint_pmf 0 (n - 1) 0 < scaled_beta_pmf n 0"
  proof (intro allI impI)
    fix n :: int assume n: "2 \<le> n"
    then have "randint_pmf 0 (n - 1) 0 = 1 / real_of_int n" by (simp add: randint_pmf_def)
    with scaled_beta_pmf_zero[OF n] show "randint_pmf 0 (n - 1) 0 < scaled_beta_pmf n 0" by simp
  qed
  from a1 a2 a3 a4 a5 a6 a7 a8 a9 a10 a11 a12 a13 show ?thesis by (intro conjI)
qed


theorem research_draw_scaled_beta_target_draw_uniform_witness:
  "is_double (5404319552844595 / 18014398509481984)
   \<and> known_facts (do_research (example_draws 0 0 (5404319552844595 / 18014398509481984))
        (example_worker 100 [] 3)) = [30]
   \<and> \<lfloor>real_of_int 100 * (5404319552844595 / 18014398509481984)\<rfloor> = 29
   \<and> randint_pmf 0 99 0 < scaled_beta_pmf 100 0"
proof -
  have h1: "0 \<le> d_beta (example_draws 0 0 (5404319552844595 / 18014398509481984))"
    and h2: "d_beta (example_draws 0 0 (5404319552844595 / 18014398509481984)) < 1"
    and h4: "0 < n_facts (example_worker 100 [] 3)"
    and h5: "n_facts (example_worker 100 [] 3) < 2 ^ 53"
    by (simp_all add: example_defs)
  have dd: "is_double (5404319552844595 / 18014398509481984)"
    by (simp add: float_defs)
  then have h3: "is_double (d_beta (example_draws 0 0 (5404319552844595 / 18014398509481984)))"
    by (simp add: example_defs)
  have f: "py_int (fmul (float_of_int 100) (5404319552844595 / 18014398509481984)) = 30"
    by (simp add: float_defs py_int_def)
  have fl: "\<lfloor>real_of_int 100 * (5404319552844595 / 18014398509481984)\<rfloor> = 29"
    by simp
  note t = research_draw_scaled_beta_target_draw_uniform[OF h1 h2 h3 h4 h5]
  from t have "known_facts (do_research (example_draws 0 0 (5404319552844595 / 18014398509481984))
          (example_worker 100 [] 3))
        = set_add (py_int (fmul (float_of_int (n_facts (example_worker 100 [] 3)))
                     (d_beta (example_draws 0 0 (5404319552844595 / 18014398509481984)))))
            (known_facts (example_worker 100 [] 3))"
    by (rule conjunct1)
  then have k: "known_facts (do_research (example_draws 0 0 (5404319552844595 / 18014398509481984))
          (example_worker 100 [] 3)) = [30]"
    using f by (simp add: example_defs set_add_def)
  from t have "\<forall>n. 2 \<le> n \<longrightarrow> randint_pmf 0 (n - 1) 0 < scaled_beta_pmf n 0"
    by (elim conjE)
  then have "2 \<le> (100::int) \<longrightarrow> randint_pmf 0 (100 - 1) 0 < scaled_beta_pmf 100 0"
    by (rule spec)
  then have "randint_pmf 0 99 0 < scaled_beta_pmf 100 0" by simp
  then show ?thesis using dd k fl by simp
qed


text \<open>
  Claim C5, as stated, fails for the target draw, also for a worker whose fact space is
  the range of that draw (\<open>n_facts = 100\<close>): the target is fact 0 with probability 1/100,
  and the scaled Beta distribution gives fact 0 a larger probability.
\<close>

theorem target_draw_not_scaled_beta:
  "target_pmf 0 = 1 / 100 \<and> 1 / 100 < scaled_beta_pmf 100 0"
proof -
  have "target_pmf 0 = 1 / 100"
    by (simp add: target_pmf_def randint_pmf_def n_facts_global_def)
  moreover have "1 / real_of_int 100 < scaled_beta_pmf 100 0"
    by (rule scaled_beta_pmf_zero) simp
  ultimately show ?thesis by simp
qed

lemma mixed_run_research:
  "py_int (fmul (float_of_int 10) (5404319552844595 / 18014398509481984)) = 3"
  "py_int (fmul (float_of_int 100) (1 / 2)) = 50"
  by (simp_all add: float_defs py_int_def)

lemma mixed_run_first_tick: "tick (mixed_draws 0) mixed_cohort =
    Inr (\<lparr>workers = [example_worker 10 [3] 50, example_worker 100 [50] 7], database = []\<rparr>, 1 / 2)"
  by (simp add: mixed_cohort_def mixed_draws_def example_defs model_defs upt_rec
      mixed_run_research)

lemma mixed_run_second_tick: "tick (mixed_draws (Suc 0)) \<lparr>workers = [example_worker 10 [3] 50, example_worker 100 [50] 7], database = []\<rparr> =
    Inr (\<lparr>workers = [example_worker 10 [50, 3] 50, example_worker 100 [50] 7], database = []\<rparr>, 1 / 2)"
  by (simp add: mixed_cohort_def mixed_draws_def example_defs model_defs upt_rec)


text \<open>
  Claim C8 on a cohort of two workers whose fact spaces differ: both start with no known
  fact and with a target of their own fact space, and after two ticks worker 0, whose
  fact space is \<open>[0, 10)\<close>, knows fact 50. Its second target was drawn by
  \<open>random.randint(0, n_facts-1)\<close> on the module's \<open>n_facts = 100\<close>, not on its own
  \<open>self.n_facts\<close>, and its colleague knew that fact.
\<close>

theorem foreign_target_enters_known_facts:
  "run_experiment_v2 mixed_draws mixed_cohort 2 =
     Inr ([1 / 2, 1 / 2],
          \<lparr>workers = [example_worker 10 [50, 3] 50, example_worker 100 [50] 7], database = []\<rparr>)
   \<and> n_facts (example_worker 10 [50, 3] 50) = 10
   \<and> known_facts (example_worker 10 [50, 3] 50) = [50, 3]"
proof -
  have "run_loop mixed_draws 0 (Suc (Suc 0)) mixed_cohort [] =
     Inr ([1 / 2, 1 / 2],
          \<lparr>workers = [example_worker 10 [50, 3] 50, example_worker 100 [50] 7], database = []\<rparr>)"
    by (simp add: mixed_run_first_tick mixed_run_second_tick)
  then show ?thesis
    by (simp add: run_experiment_v2_def numeral_2_eq_2 example_worker_def)
qed

end
